theory Spec2Isabelle
  imports Complex_Main "HOL-Library.Word"
begin

section \<open>JavaScript strings and errors\<close>

text \<open>
  A JavaScript string is a sequence of UTF-16 code units; \<open>length\<close>, \<open>slice\<close>,
  \<open>replace\<close> and \<open>trim\<close> all count and compare code units.  String literals of the
  source are written with \<open>js\<close>.
\<close>

type_synonym code_unit = "16 word"
type_synonym jsstring = "code_unit list"

definition js :: "string \<Rightarrow> jsstring" where
  "js s = map (\<lambda>c. of_char c) s"

text \<open>Truthiness of a value that is either \<open>undefined\<close> or a string.\<close>

definition truthy :: "jsstring option \<Rightarrow> bool" where
  "truthy v = (case v of None \<Rightarrow> False | Some s \<Rightarrow> s \<noteq> [])"

text \<open>\<open>s.slice(i, j)\<close> for non-negative indices.\<close>

definition slice :: "jsstring \<Rightarrow> nat \<Rightarrow> nat \<Rightarrow> jsstring" where
  "slice s i j = take (j - i) (drop i s)"

text \<open>\<open>s.startsWith(p)\<close>.\<close>

definition startsWith :: "'a list \<Rightarrow> 'a list \<Rightarrow> bool" where
  "startsWith s p = (take (length p) s = p)"

text \<open>
  Exceptions are values: a call that can throw returns \<open>js_error + 'a\<close>, a rejected
  promise is \<open>Inl\<close>.
\<close>

datatype js_error = TransportError | TypeError | RangeError | SyntaxError | StopError

section \<open>The Slack channel (src/channels/slack.ts)\<close>

text \<open>
  The part of a \<open>users.info\<close> response that \<open>resolveUserName\<close> reads.  Every
  field may be missing (\<open>undefined\<close>), as the optional chaining of the source allows.
\<close>

record slack_profile =
  display_name :: "jsstring option"

record slack_user =
  profile :: "slack_profile option"
  real_name :: "jsstring option"
  user_name :: "jsstring option"

text \<open>The message of an inbound event, as far as the handler reads it.\<close>

record slack_message =
  channel_type :: "jsstring option"
  subtype :: "jsstring option"
  user :: "jsstring option"
  message_text :: "jsstring option"
  ts :: "jsstring option"

record registered_group =
  group_name :: jsstring
  folder :: jsstring
  trigger :: jsstring
  added_at :: jsstring

record new_message =
  msg_id :: "jsstring option"
  chat_jid :: jsstring
  sender :: jsstring
  sender_name :: jsstring
  content :: jsstring
  timestamp :: jsstring
  is_from_me :: bool

text \<open>
  Everything the channel does to the outside world, in call order: transport calls,
  the two callbacks of \<open>SlackChannelOpts\<close>, and the logger.
\<close>

datatype slack_event =
    PostMessage jsstring jsstring
  | UsersInfo jsstring
  | OnChatMetadata jsstring jsstring jsstring
  | OnMessage jsstring new_message
  | AppStart
  | AppStop
  | LogDebug
  | LogInfo
  | LogWarn
  | LogError

record app_config =
  token :: jsstring
  app_token :: jsstring
  socketMode :: bool

record slack_channel =
  app :: "app_config option"
  botToken :: jsstring
  appToken :: jsstring
  userNameCache :: "jsstring \<rightharpoonup> jsstring"

definition SlackChannel :: "jsstring \<Rightarrow> jsstring \<Rightarrow> slack_channel" where
  "SlackChannel bot_token application_token =
     \<lparr>app = None, botToken = bot_token, appToken = application_token,
      userNameCache = Map.empty\<rparr>"

text \<open>
  \<open>connect\<close> creates the app first and only then awaits \<open>start()\<close>, which may reject;
  the field is assigned either way.
\<close>

definition connect :: "bool \<Rightarrow> slack_channel \<Rightarrow> (js_error + unit) \<times> slack_channel \<times> slack_event list" where
  "connect start_ok s =
     (let s' = s\<lparr>app := Some \<lparr>token = botToken s, app_token = appToken s, socketMode = True\<rparr>\<rparr>
      in if start_ok then (Inr (), s', [AppStart, LogInfo])
         else (Inl TransportError, s', [AppStart]))"

definition isConnected :: "slack_channel \<Rightarrow> bool" where
  "isConnected s = (app s \<noteq> None)"

definition ownsJid :: "jsstring \<Rightarrow> bool" where
  "ownsJid jid = startsWith jid (js ''slack:'')"

text \<open>
  \<open>disconnect\<close> awaits \<open>stop()\<close> before clearing the field: when \<open>stop()\<close> rejects the
  promise is rejected and the field keeps the app.
\<close>

definition disconnect :: "bool \<Rightarrow> slack_channel \<Rightarrow> (js_error + unit) \<times> slack_channel \<times> slack_event list" where
  "disconnect stop_ok s =
     (case app s of
        None \<Rightarrow> (Inr (), s, [])
      | Some a \<Rightarrow>
          if stop_ok then (Inr (), s\<lparr>app := None\<rparr>, [AppStop, LogInfo])
          else (Inl StopError, s, [AppStop]))"

subsection \<open>sendMessage\<close>

definition MAX_LENGTH :: nat where
  "MAX_LENGTH = 4000"

text \<open>\<open>jid.replace(/^slack:/, '')\<close>.\<close>

definition strip_slack_prefix :: "jsstring \<Rightarrow> jsstring" where
  "strip_slack_prefix jid =
     (if startsWith jid (js ''slack:'') then drop (length (js ''slack:'')) jid else jid)"

text \<open>
  The \<open>for\<close> loop of \<open>sendMessage\<close>.  \<open>post_ok k\<close> tells whether the \<open>k\<close>-th
  \<open>chat.postMessage\<close> call of this send resolves; a rejected call throws out of the loop,
  after the call was made.
\<close>

function post_chunks ::
  "(nat \<Rightarrow> bool) \<Rightarrow> jsstring \<Rightarrow> jsstring \<Rightarrow> nat \<Rightarrow> nat \<Rightarrow> (js_error + unit) \<times> slack_event list" where
  "post_chunks post_ok channel text i k =
     (if i < length text then
        (if post_ok k then
           (case post_chunks post_ok channel text (i + MAX_LENGTH) (Suc k) of
              (r, evs) \<Rightarrow> (r, PostMessage channel (slice text i (i + MAX_LENGTH)) # evs))
         else (Inl TransportError, [PostMessage channel (slice text i (i + MAX_LENGTH))]))
      else (Inr (), []))"
  by pat_completeness auto
termination
  by (relation "measure (\<lambda>(ok, c, t, i, k). length t - i)") (auto simp: MAX_LENGTH_def)

declare post_chunks.simps [simp del]

text \<open>The body of the \<open>try\<close> block.\<close>

definition send_body ::
  "(nat \<Rightarrow> bool) \<Rightarrow> jsstring \<Rightarrow> jsstring \<Rightarrow> (js_error + unit) \<times> slack_event list" where
  "send_body post_ok jid text =
     (let channel = strip_slack_prefix jid;
          (r, evs) =
            (if length text \<le> MAX_LENGTH then
               (if post_ok 0 then (Inr (), [PostMessage channel text])
                else (Inl TransportError, [PostMessage channel text]))
             else post_chunks post_ok channel text 0 0)
      in case r of
           Inl e \<Rightarrow> (Inl e, evs)
         | Inr u \<Rightarrow> (Inr (), evs @ [LogInfo]))"

definition sendMessage ::
  "(nat \<Rightarrow> bool) \<Rightarrow> slack_channel \<Rightarrow> jsstring \<Rightarrow> jsstring \<Rightarrow> (js_error + unit) \<times> slack_event list" where
  "sendMessage post_ok s jid text =
     (case app s of
        None \<Rightarrow> (Inr (), [LogWarn])
      | Some a \<Rightarrow>
          (case send_body post_ok jid text of
             (Inr u, evs) \<Rightarrow> (Inr (), evs)
           | (Inl err, evs) \<Rightarrow> (Inr (), evs @ [LogError])))"

text \<open>The transport calls of a trace, in call order.\<close>

fun posted :: "slack_event list \<Rightarrow> (jsstring \<times> jsstring) list" where
  "posted [] = []"
| "posted (PostMessage c t # evs) = (c, t) # posted evs"
| "posted (e # evs) = posted evs"


subsection \<open>Inbound messages\<close>

text \<open>\<open>a || b\<close> where \<open>a\<close> is \<open>undefined\<close> or a string and \<open>b\<close> is a string.\<close>

definition or_else :: "jsstring option \<Rightarrow> jsstring \<Rightarrow> jsstring" where
  "or_else a b = (case a of None \<Rightarrow> b | Some v \<Rightarrow> if v \<noteq> [] then v else b)"

text \<open>
  The fallback chain
  \<open>user?.profile?.display_name || user?.real_name || user?.name || userId\<close>;
  the argument is \<open>result.user\<close>, which may be \<open>undefined\<close>.
\<close>

definition fallback_name :: "slack_user option \<Rightarrow> jsstring \<Rightarrow> jsstring" where
  "fallback_name u userId =
     or_else (case u of None \<Rightarrow> None
              | Some v \<Rightarrow> (case profile v of None \<Rightarrow> None | Some p \<Rightarrow> display_name p))
       (or_else (case u of None \<Rightarrow> None | Some v \<Rightarrow> real_name v)
          (or_else (case u of None \<Rightarrow> None | Some v \<Rightarrow> user_name v) userId))"

text \<open>
  The \<open>try\<close> block of \<open>resolveUserName\<close>.  \<open>users_info\<close> is the transport's lookup:
  it rejects (\<open>Inl\<close>) or resolves with \<open>result.user\<close>.  With no app, \<open>this.app!.client\<close>
  throws a \<open>TypeError\<close> inside the block.
\<close>

definition lookup_user ::
  "(jsstring \<Rightarrow> js_error + slack_user option) \<Rightarrow> slack_channel \<Rightarrow> jsstring \<Rightarrow>
     (js_error + jsstring) \<times> slack_channel \<times> slack_event list" where
  "lookup_user users_info s userId =
     (case app s of
        None \<Rightarrow> (Inl TypeError, s, [])
      | Some a \<Rightarrow>
          (case users_info userId of
             Inl err \<Rightarrow> (Inl err, s, [UsersInfo userId])
           | Inr u \<Rightarrow>
               (let name = fallback_name u userId
                in (Inr name, s\<lparr>userNameCache := (userNameCache s)(userId \<mapsto> name)\<rparr>,
                    [UsersInfo userId]))))"

definition resolveUserName ::
  "(jsstring \<Rightarrow> js_error + slack_user option) \<Rightarrow> slack_channel \<Rightarrow> jsstring \<Rightarrow>
     jsstring \<times> slack_channel \<times> slack_event list" where
  "resolveUserName users_info s userId =
     (if truthy (userNameCache s userId) then (or_else (userNameCache s userId) [], s, [])
      else
        (case lookup_user users_info s userId of
           (Inr name, s', evs) \<Rightarrow> (name, s', evs)
         | (Inl err, s', evs) \<Rightarrow> (userId, s', evs @ [LogDebug])))"

text \<open>
  The handler that \<open>connect\<close> registers with \<open>app.message\<close>.  \<open>toISOString\<close> stands for
  \<open>new Date(parseFloat(msg.ts) * 1000).toISOString()\<close>, which throws a \<open>RangeError\<close>
  (\<open>None\<close>) when \<open>msg.ts\<close> is not a number; \<open>registeredGroups\<close> is the record that
  \<open>opts.registeredGroups()\<close> returns.
\<close>

definition on_message ::
  "(jsstring option \<Rightarrow> jsstring option) \<Rightarrow> (jsstring \<Rightarrow> js_error + slack_user option) \<Rightarrow>
   (jsstring \<rightharpoonup> registered_group) \<Rightarrow> slack_channel \<Rightarrow> slack_message \<Rightarrow>
     (js_error + unit) \<times> slack_channel \<times> slack_event list" where
  "on_message toISOString users_info registeredGroups s msg =
     (if channel_type msg \<noteq> Some (js ''im'') then (Inr (), s, [])
      else if truthy (subtype msg) then (Inr (), s, [])
      else if \<not> truthy (user msg) then (Inr (), s, [])
      else
        (let userId = or_else (user msg) [];
             chatJid = js ''slack:'' @ userId
         in case toISOString (ts msg) of
              None \<Rightarrow> (Inl RangeError, s, [])
            | Some stamp \<Rightarrow>
                (let body = or_else (message_text msg) [];
                     msgId = ts msg
                 in case resolveUserName users_info s userId of
                      (senderName, s', evs) \<Rightarrow>
                        (case registeredGroups chatJid of
                           None \<Rightarrow>
                             (Inr (), s', evs @ [OnChatMetadata chatJid stamp senderName, LogDebug])
                         | Some grp \<Rightarrow>
                             (Inr (), s',
                              evs @ [OnChatMetadata chatJid stamp senderName,
                                     OnMessage chatJid
                                       \<lparr>msg_id = msgId, chat_jid = chatJid, sender = userId,
                                        sender_name = senderName, content = body,
                                        timestamp = stamp, is_from_me = False\<rparr>,
                                     LogInfo])))))"


section \<open>The command-line chat (src/unnamed/part_000)\<close>

subsection \<open>JSON values\<close>

text \<open>
  What \<open>JSON.parse\<close> returns.  A number carries the value of its double; an object
  carries its properties in order.
\<close>

datatype json =
    JNull
  | JBool bool
  | JNumber real
  | JString jsstring
  | JArray "json list"
  | JObject "(jsstring \<times> json) list"

text \<open>
  Reading a property: \<open>null\<close> throws a \<open>TypeError\<close>; an object gives its property or
  \<open>undefined\<close> (\<open>None\<close>); the other values have no property named \<open>type\<close> or \<open>text\<close>,
  the only two names read.
\<close>

fun get_property :: "json \<Rightarrow> jsstring \<Rightarrow> js_error + json option" where
  "get_property JNull k = Inl TypeError"
| "get_property (JObject kvs) k = Inr (map_of kvs k)"
| "get_property v k = Inr None"

text \<open>Truthiness of a property value.\<close>

fun json_truthy :: "json option \<Rightarrow> bool" where
  "json_truthy None = False"
| "json_truthy (Some JNull) = False"
| "json_truthy (Some (JBool b)) = b"
| "json_truthy (Some (JNumber x)) = (x \<noteq> 0)"
| "json_truthy (Some (JString s)) = (s \<noteq> [])"
| "json_truthy (Some (JArray vs)) = True"
| "json_truthy (Some (JObject kvs)) = True"

subsection \<open>Internal regions and trimming\<close>

definition INTERNAL_OPEN :: jsstring where
  "INTERNAL_OPEN = js ''<internal>''"

definition INTERNAL_CLOSE :: jsstring where
  "INTERNAL_CLOSE = js ''</internal>''"

text \<open>\<open>s.indexOf(p)\<close>: the position of the first occurrence of \<open>p\<close> in \<open>s\<close>.\<close>

fun indexOf :: "'a list \<Rightarrow> 'a list \<Rightarrow> nat option" where
  "indexOf [] p = (if p = [] then Some 0 else None)"
| "indexOf (c # cs) p =
     (if startsWith (c # cs) p then Some 0 else map_option Suc (indexOf cs p))"

text \<open>
  \<open>s.replace(/<internal>[\s\S]*?<\/internal>/g, '')\<close>.  The global regular
  expression is tried at each position from left to right.  At a position where
  \<open><internal>\<close> starts, the lazy \<open>[\s\S]*?\<close> extends the match to the first
  \<open></internal>\<close> that follows; the match is removed and the scan goes on behind it.
  Where no match starts, the code unit is kept and the scan moves one position on.
\<close>

function strip_internal :: "jsstring \<Rightarrow> jsstring" where
  "strip_internal [] = []"
| "strip_internal (c # cs) =
     (if startsWith (c # cs) INTERNAL_OPEN then
        (case indexOf (drop (length INTERNAL_OPEN) (c # cs)) INTERNAL_CLOSE of
           Some n \<Rightarrow>
             strip_internal
               (drop (length INTERNAL_OPEN + n + length INTERNAL_CLOSE) (c # cs))
         | None \<Rightarrow> c # strip_internal cs)
      else c # strip_internal cs)"
  by pat_completeness auto
termination
  by (relation "measure length") (auto simp: INTERNAL_OPEN_def js_def)

text \<open>
  \<open>String.prototype.trim\<close> removes white space and line terminators from both ends:
  TAB, LF, VT, FF, CR, SP, NBSP, U+1680, U+2000 to U+200A, U+2028, U+2029, U+202F,
  U+205F, U+3000 and U+FEFF.
\<close>

definition is_white_space :: "code_unit \<Rightarrow> bool" where
  "is_white_space c =
     (c \<in> {0x09, 0x0A, 0x0B, 0x0C, 0x0D, 0x20, 0xA0, 0x1680, 0x2028, 0x2029, 0x202F,
            0x205F, 0x3000, 0xFEFF}
      \<or> (0x2000 \<le> c \<and> c \<le> 0x200A))"

definition trim :: "jsstring \<Rightarrow> jsstring" where
  "trim s = rev (dropWhile is_white_space (rev (dropWhile is_white_space s)))"

definition visible_text :: "jsstring \<Rightarrow> jsstring" where
  "visible_text raw = trim (strip_internal raw)"

subsection \<open>The delivered content in the words of the specification\<close>

text \<open>
  The specification describes the delivered content without an algorithm: the written
  text with every internal region removed, then trimmed.  The three definitions below
  say this directly; they are compared with \<open>strip_internal\<close> and \<open>trim\<close> further down.

  \<open>occurs_at p i s\<close>: the string \<open>p\<close> occurs in \<open>s\<close> at position \<open>i\<close>.
\<close>

definition occurs_at :: "jsstring \<Rightarrow> nat \<Rightarrow> jsstring \<Rightarrow> bool" where
  "occurs_at p i s = (\<exists>u v. s = u @ p @ v \<and> length u = i)"

text \<open>
  A region reaches from an opening tag to the first closing tag behind it.  A text in
  which no closing tag stands behind an opening tag has no region and stays as it is.
  Otherwise the text is cut at its first opening tag and at the first closing tag
  behind that, the part in front is kept, and the part behind is treated in the same
  way.
\<close>

inductive regions_removed :: "jsstring \<Rightarrow> jsstring \<Rightarrow> bool" where
  no_region:
    "(\<And>i j. occurs_at INTERNAL_OPEN i s \<Longrightarrow> occurs_at INTERNAL_CLOSE j s \<Longrightarrow>
        j < i + length INTERNAL_OPEN) \<Longrightarrow>
     regions_removed s s"
| first_region:
    "(\<And>j. j < length a \<Longrightarrow>
        \<not> occurs_at INTERNAL_OPEN j (a @ INTERNAL_OPEN @ b @ INTERNAL_CLOSE @ rest)) \<Longrightarrow>
     (\<And>j. j < length b \<Longrightarrow> \<not> occurs_at INTERNAL_CLOSE j (b @ INTERNAL_CLOSE @ rest)) \<Longrightarrow>
     regions_removed rest out \<Longrightarrow>
     regions_removed (a @ INTERNAL_OPEN @ b @ INTERNAL_CLOSE @ rest) (a @ out)"

text \<open>
  \<open>trimmed s t\<close>: \<open>t\<close> is \<open>s\<close> without the white space around it, that is, \<open>s\<close> is \<open>t\<close>
  between two runs of white space, and \<open>t\<close> neither starts nor ends with white space.
\<close>

definition trimmed :: "jsstring \<Rightarrow> jsstring \<Rightarrow> bool" where
  "trimmed s t =
     (\<exists>l r. s = l @ t @ r \<and> list_all is_white_space l \<and> list_all is_white_space r \<and>
            (t = [] \<or> (\<not> is_white_space (hd t) \<and> \<not> is_white_space (last t))))"

subsection \<open>Effects and state\<close>

datatype cli_event =
    ConsoleLog jsstring
  | ConsoleError jsstring
  | Prompt
  | Unlink jsstring
  | ClearInterval
  | StdinWrite jsstring
  | StdinEnd
  | ExecSync jsstring
  | SetSession jsstring jsstring
  | ProcessExit nat

text \<open>The line that is printed for the assistant: \<open>`\n${ASSISTANT_NAME}: ${text}`\<close>.\<close>

definition assistant_line :: "jsstring \<Rightarrow> jsstring \<Rightarrow> jsstring" where
  "assistant_line ASSISTANT_NAME t = js [CHR 0x0A] @ ASSISTANT_NAME @ js '': '' @ t"

subsection \<open>The mailbox poll\<close>

text \<open>
  The statements of the inner \<open>try\<close> block between \<open>JSON.parse\<close> and \<open>unlinkSync\<close>.
  \<open>data.text.replace\<close> is a \<open>TypeError\<close> when \<open>data.text\<close> is truthy but not a string.
\<close>

definition deliver :: "jsstring \<Rightarrow> json \<Rightarrow> js_error + cli_event list" where
  "deliver ASSISTANT_NAME data =
     (case get_property data (js ''type'') of
        Inl e \<Rightarrow> Inl e
      | Inr ty \<Rightarrow>
          if ty = Some (JString (js ''message'')) then
            (case get_property data (js ''text'') of
               Inl e \<Rightarrow> Inl e
             | Inr tx \<Rightarrow>
                 if json_truthy tx then
                   (case tx of
                      Some (JString raw) \<Rightarrow>
                        (let t = visible_text raw
                         in if t \<noteq> [] then Inr [ConsoleLog (assistant_line ASSISTANT_NAME t), Prompt]
                            else Inr [])
                    | _ \<Rightarrow> Inl TypeError)
                 else Inr [])
          else Inr [])"

text \<open>
  The mailbox directory: file names with their contents, in listing order.  \<open>parse\<close> is
  \<open>JSON.parse\<close>, \<open>None\<close> when it throws a \<open>SyntaxError\<close>.
\<close>

type_synonym directory = "(jsstring \<times> jsstring) list"

definition endsWith :: "'a list \<Rightarrow> 'a list \<Rightarrow> bool" where
  "endsWith s p = (length p \<le> length s \<and> drop (length s - length p) s = p)"

definition unlink :: "jsstring \<Rightarrow> directory \<Rightarrow> directory" where
  "unlink f d = filter (\<lambda>(n, c). n \<noteq> f) d"

text \<open>
  One iteration of the \<open>for\<close> loop.  Every exception of the inner \<open>try\<close> block lands in
  the empty \<open>catch\<close>: a file that cannot be read, a \<open>SyntaxError\<close> of \<open>JSON.parse\<close>, a
  \<open>TypeError\<close> of the delivery.  \<open>unlinkSync\<close> is the last statement of the block.
\<close>

definition process_file ::
  "(jsstring \<Rightarrow> json option) \<Rightarrow> jsstring \<Rightarrow> jsstring \<Rightarrow> directory \<Rightarrow> directory \<times> cli_event list" where
  "process_file parse ASSISTANT_NAME f d =
     (case map_of d f of
        None \<Rightarrow> (d, [])
      | Some c \<Rightarrow>
          (case parse c of
             None \<Rightarrow> (d, [])
           | Some data \<Rightarrow>
               (case deliver ASSISTANT_NAME data of
                  Inl e \<Rightarrow> (d, [])
                | Inr evs \<Rightarrow> (unlink f d, evs @ [Unlink f]))))"

fun process_files ::
  "(jsstring \<Rightarrow> json option) \<Rightarrow> jsstring \<Rightarrow> jsstring list \<Rightarrow> directory \<Rightarrow> directory \<times> cli_event list" where
  "process_files parse ASSISTANT_NAME [] d = (d, [])"
| "process_files parse ASSISTANT_NAME (f # fs) d =
     (case process_file parse ASSISTANT_NAME f d of
        (d', evs) \<Rightarrow>
          (case process_files parse ASSISTANT_NAME fs d' of
             (d'', evs') \<Rightarrow> (d'', evs @ evs')))"

text \<open>
  One run of the interval callback.  The mailbox is \<open>None\<close> when the directory does not
  exist: \<open>readdirSync\<close> throws into the outer \<open>catch\<close>.
\<close>

definition ipcInterval ::
  "(jsstring \<Rightarrow> json option) \<Rightarrow> jsstring \<Rightarrow> directory option \<Rightarrow> directory option \<times> cli_event list" where
  "ipcInterval parse ASSISTANT_NAME mailbox =
     (case mailbox of
        None \<Rightarrow> (None, [])
      | Some d \<Rightarrow>
          (let files = filter (\<lambda>f. endsWith f (js ''.json'')) (map fst d)
           in case process_files parse ASSISTANT_NAME files d of
                (d', evs) \<Rightarrow> (Some d', evs)))"

text \<open>Polling again and again, with nothing else touching the mailbox.\<close>

fun polls ::
  "(jsstring \<Rightarrow> json option) \<Rightarrow> jsstring \<Rightarrow> nat \<Rightarrow> directory option \<Rightarrow> directory option \<times> cli_event list" where
  "polls parse ASSISTANT_NAME 0 mailbox = (mailbox, [])"
| "polls parse ASSISTANT_NAME (Suc n) mailbox =
     (case ipcInterval parse ASSISTANT_NAME mailbox of
        (m', evs) \<Rightarrow>
          (case polls parse ASSISTANT_NAME n m' of
             (m'', evs') \<Rightarrow> (m'', evs @ evs')))"


subsection \<open>Cancellation\<close>

text \<open>
  The child process as far as \<open>cleanup\<close> reads it: the \<open>killed\<close> flag, and whether a
  \<open>stdin\<close> stream exists (\<open>stdin?.\<close> skips the call when it is \<open>null\<close>).
\<close>

record child_process =
  killed :: bool
  has_stdin :: bool

record cli_state =
  activeProcess :: "child_process option"
  activeContainerName :: "jsstring option"
  sessions :: "jsstring \<rightharpoonup> jsstring"

text \<open>Which of the calls that \<open>cleanup\<close> makes throw.\<close>

record faults =
  write_throws :: bool
  end_throws :: bool
  stop_throws :: bool

text \<open>The sentinel \<open>'\n_close\n'\<close>.\<close>

definition CLOSE_SENTINEL :: jsstring where
  "CLOSE_SENTINEL = js [CHR 0x0A] @ js ''_close'' @ js [CHR 0x0A]"

text \<open>
  The first \<open>try\<close> block: \<open>stdin?.write('\n_close\n'); stdin?.end()\<close>.  A call is
  recorded when it is made; a throwing call leaves the block.
\<close>

definition close_stdin :: "faults \<Rightarrow> child_process \<Rightarrow> (js_error + unit) \<times> cli_event list" where
  "close_stdin fl p =
     (if has_stdin p then
        (if write_throws fl then (Inl TransportError, [StdinWrite CLOSE_SENTINEL])
         else if end_throws fl then
           (Inl TransportError, [StdinWrite CLOSE_SENTINEL, StdinEnd])
         else (Inr (), [StdinWrite CLOSE_SENTINEL, StdinEnd]))
      else (Inr (), []))"

text \<open>The second \<open>try\<close> block: \<open>execSync(`container stop ${activeContainerName}`)\<close>.\<close>

definition stop_container :: "faults \<Rightarrow> jsstring \<Rightarrow> (js_error + unit) \<times> cli_event list" where
  "stop_container fl name =
     (if stop_throws fl then (Inl TransportError, [ExecSync (js ''container stop '' @ name)])
      else (Inr (), [ExecSync (js ''container stop '' @ name)]))"

text \<open>\<open>try { body } catch { }\<close>: the effects stay, the exception is dropped.\<close>

definition try_ignore :: "(js_error + unit) \<times> cli_event list \<Rightarrow> cli_event list" where
  "try_ignore r = (case r of (Inl e, evs) \<Rightarrow> evs | (Inr u, evs) \<Rightarrow> evs)"

definition cleanup :: "faults \<Rightarrow> cli_state \<Rightarrow> cli_event list" where
  "cleanup fl st =
     ClearInterval #
     (case activeProcess st of
        None \<Rightarrow> []
      | Some p \<Rightarrow>
          if \<not> killed p then
            try_ignore (close_stdin fl p) @
            (if truthy (activeContainerName st)
             then try_ignore (stop_container fl (or_else (activeContainerName st) []))
             else [])
          else []) @
     [ProcessExit 0]"

text \<open>The callback given to \<open>runContainerAgent\<close> that registers the running sandbox.\<close>

definition on_launch :: "child_process \<Rightarrow> jsstring \<Rightarrow> cli_state \<Rightarrow> cli_state" where
  "on_launch proc containerName st =
     st\<lparr>activeProcess := Some proc, activeContainerName := Some containerName\<rparr>"

subsection \<open>Session tokens and results\<close>

record container_output =
  status :: jsstring
  result :: "json option"
  newSessionId :: "jsstring option"
  error :: "jsstring option"

text \<open>
  \<open>if (o.newSessionId) { sessions[groupFolder] = o.newSessionId;
  setSession(groupFolder, o.newSessionId); }\<close>, the same statement in the streaming
  callback and after the run.
\<close>

definition update_session ::
  "jsstring \<Rightarrow> container_output \<Rightarrow> cli_state \<Rightarrow> cli_state \<times> cli_event list" where
  "update_session groupFolder out st =
     (if truthy (newSessionId out) then
        (st\<lparr>sessions := (sessions st)(groupFolder \<mapsto> or_else (newSessionId out) [])\<rparr>,
         [SetSession groupFolder (or_else (newSessionId out) [])])
      else (st, []))"

text \<open>
  The second half of the streaming callback.  \<open>stringify\<close> is \<open>JSON.stringify\<close>, used
  for a result that is not a string.
\<close>

definition show_result ::
  "(json \<Rightarrow> jsstring) \<Rightarrow> jsstring \<Rightarrow> container_output \<Rightarrow> cli_event list" where
  "show_result stringify ASSISTANT_NAME out =
     (if json_truthy (result out) then
        (let raw = (case result out of
                      Some (JString s) \<Rightarrow> s
                    | Some v \<Rightarrow> stringify v
                    | None \<Rightarrow> []);
             t = visible_text raw
         in if t \<noteq> [] then [ConsoleLog (assistant_line ASSISTANT_NAME t)] else [])
      else [])"

text \<open>The streaming callback \<open>async (result: ContainerOutput) => { ... }\<close>.\<close>

definition on_output ::
  "(json \<Rightarrow> jsstring) \<Rightarrow> jsstring \<Rightarrow> jsstring \<Rightarrow> container_output \<Rightarrow> cli_state \<Rightarrow>
     cli_state \<times> cli_event list" where
  "on_output stringify ASSISTANT_NAME groupFolder out st =
     (case update_session groupFolder out st of
        (st', evs) \<Rightarrow> (st', evs @ show_result stringify ASSISTANT_NAME out))"

text \<open>The statements after \<open>await runContainerAgent(...)\<close> inside the \<open>try\<close> block.\<close>

definition on_completed ::
  "jsstring \<Rightarrow> container_output \<Rightarrow> cli_state \<Rightarrow> cli_state \<times> cli_event list" where
  "on_completed groupFolder out st =
     (case update_session groupFolder out st of
        (st', evs) \<Rightarrow>
          (st', evs @
             (if status out = js ''error''
              then [ConsoleError (js [CHR 0x0A] @ js ''[Error: '' @
                                  or_else (error out) (js ''Unknown error'') @ js '']'')]
              else [])))"

fun on_outputs ::
  "(json \<Rightarrow> jsstring) \<Rightarrow> jsstring \<Rightarrow> jsstring \<Rightarrow> container_output list \<Rightarrow> cli_state \<Rightarrow>
     cli_state \<times> cli_event list" where
  "on_outputs stringify ASSISTANT_NAME groupFolder [] st = (st, [])"
| "on_outputs stringify ASSISTANT_NAME groupFolder (out # outs) st =
     (case on_output stringify ASSISTANT_NAME groupFolder out st of
        (st', evs) \<Rightarrow>
          (case on_outputs stringify ASSISTANT_NAME groupFolder outs st' of
             (st'', evs') \<Rightarrow> (st'', evs @ evs')))"

text \<open>
  One turn, from the call of \<open>runContainerAgent\<close> to the next prompt.
  \<open>runContainerAgent\<close> itself (container-runner.js) is taken as what it does to this
  file: it hands the streamed outputs \<open>outs\<close> to the callback, one after the other, and
  then resolves with the completed output or rejects with a message.
\<close>

definition run_turn ::
  "(json \<Rightarrow> jsstring) \<Rightarrow> jsstring \<Rightarrow> jsstring \<Rightarrow> container_output list \<Rightarrow>
   (jsstring + container_output) \<Rightarrow> cli_state \<Rightarrow> cli_state \<times> cli_event list" where
  "run_turn stringify ASSISTANT_NAME groupFolder outs final st =
     (case on_outputs stringify ASSISTANT_NAME groupFolder outs st of
        (st1, evs1) \<Rightarrow>
          (case (case final of
                   Inl message \<Rightarrow>
                     (st1, [ConsoleError (js [CHR 0x0A] @ js ''[Error: '' @ message @ js '']'')])
                 | Inr out \<Rightarrow> on_completed groupFolder out st1) of
             (st2, evs2) \<Rightarrow>
               (st2\<lparr>activeProcess := None, activeContainerName := None\<rparr>,
                evs1 @ evs2 @ [ConsoleLog [], Prompt])))"

text \<open>
  Modelled from the spec: \<open>setSession\<close> (db.js) is not part of the sources.  The spec
  keeps one token per folder, overwritten and never merged; the store after a trace is
  the store before it with each \<open>setSession\<close> call applied in order.
\<close>

definition setSession :: "jsstring \<Rightarrow> jsstring \<Rightarrow> (jsstring \<rightharpoonup> jsstring) \<Rightarrow> (jsstring \<rightharpoonup> jsstring)" where
  "setSession groupFolder tok db = db(groupFolder \<mapsto> tok)"

fun persisted :: "cli_event list \<Rightarrow> (jsstring \<rightharpoonup> jsstring) \<Rightarrow> (jsstring \<rightharpoonup> jsstring)" where
  "persisted [] db = db"
| "persisted (SetSession f t # evs) db = persisted evs (setSession f t db)"
| "persisted (e # evs) db = persisted evs db"

text \<open>The token an output carries, if any.\<close>

definition carried_token :: "container_output \<Rightarrow> jsstring option" where
  "carried_token out = (if truthy (newSessionId out) then newSessionId out else None)"

text \<open>The last token carried by a sequence of outputs.\<close>

fun last_token :: "container_output list \<Rightarrow> jsstring option" where
  "last_token [] = None"
| "last_token (out # outs) =
     (case last_token outs of Some t \<Rightarrow> Some t | None \<Rightarrow> carried_token out)"


subsection \<open>Sample data\<close>

text \<open>
  \<open>JSON.parse\<close> on the three contents that the examples below use: \<open>null\<close>, \<open>{}\<close>,
  and \<open>{oops\<close>, which is not JSON.
\<close>

definition parse_sample :: "jsstring \<Rightarrow> json option" where
  "parse_sample c =
     (if c = js ''null'' then Some JNull
      else if c = js ''{}'' then Some (JObject [])
      else None)"


section \<open>The watchdog script (src/unnamed/part_002)\<close>

subsection \<open>Shell arithmetic\<close>

text \<open>
  Shell integers are 64-bit and signed: every result wraps.  \<open>/\<close> truncates towards
  zero.
\<close>

definition wrap64 :: "int \<Rightarrow> int" where
  "wrap64 x = (x + 2 ^ 63) mod 2 ^ 64 - 2 ^ 63"

definition sh_sub :: "int \<Rightarrow> int \<Rightarrow> int" where
  "sh_sub a b = wrap64 (a - b)"

definition sh_mul :: "int \<Rightarrow> int \<Rightarrow> int" where
  "sh_mul a b = wrap64 (a * b)"

definition sh_div :: "int \<Rightarrow> int \<Rightarrow> int" where
  "sh_div a b = wrap64 (sgn a * sgn b * (\<bar>a\<bar> div \<bar>b\<bar>))"

definition is_digit :: "char \<Rightarrow> bool" where
  "is_digit c = (c \<in> set ''0123456789'')"

definition digit_value :: "char \<Rightarrow> int" where
  "digit_value c = int (of_char c) - 48"

definition number_in_base :: "int \<Rightarrow> string \<Rightarrow> int" where
  "number_in_base b ds = foldl (\<lambda>acc c. acc * b + digit_value c) 0 ds"

text \<open>
  The value of a variable that holds a string of digits, inside \<open>$(( ))\<close>: a leading
  \<open>0\<close> makes it an octal constant, and a digit \<open>8\<close> or \<open>9\<close> in an octal constant is an
  error (value too great for base).
\<close>

definition sh_number :: "string \<Rightarrow> int option" where
  "sh_number ds =
     (if 1 < length ds \<and> hd ds = CHR ''0'' then
        (if list_all (\<lambda>c. digit_value c < 8) ds then Some (wrap64 (number_in_base 8 ds))
         else None)
      else Some (wrap64 (number_in_base 10 ds)))"

subsection \<open>The reaper\<close>

record container =
  container_id :: string
  container_status :: string

datatype watchdog_event =
    ContainerStop string
  | Pkill
  | LogStopping string
  | LogNoHeartbeat
  | LogEmpty
  | LogStale int
  | LogKilled

definition max_age_seconds :: int where
  "max_age_seconds = 3900"

text \<open>\<open>grep -oE '[0-9]{13}$'\<close> on one name: its last 13 characters, when all are digits.\<close>

definition embedded_epoch :: "string \<Rightarrow> string option" where
  "embedded_epoch name =
     (let tail = drop (length name - 13) name
      in if 13 \<le> length name \<and> list_all is_digit tail then Some tail else None)"

datatype verdict = Skipped | Kept | Stopped | ArithmeticError

text \<open>The body of the \<open>for\<close> loop for one name; \<open>now\<close> is \<open>$(date +%s)\<close>.\<close>

definition examine :: "int \<Rightarrow> string \<Rightarrow> verdict" where
  "examine now name =
     (case embedded_epoch name of
        None \<Rightarrow> Skipped
      | Some epoch_ms \<Rightarrow>
          (case sh_number epoch_ms of
             None \<Rightarrow> ArithmeticError
           | Some ms \<Rightarrow>
               (let epoch_s = sh_div ms 1000;
                    age = sh_sub now epoch_s
                in if age > max_age_seconds then Stopped else Kept)))"

text \<open>
  The loop.  An arithmetic error ends the whole function call; the script goes on
  with the statement after it.
\<close>

fun reap :: "int \<Rightarrow> string list \<Rightarrow> watchdog_event list" where
  "reap now [] = []"
| "reap now (name # names) =
     (case examine now name of
        Skipped \<Rightarrow> reap now names
      | Kept \<Rightarrow> reap now names
      | Stopped \<Rightarrow> LogStopping name # ContainerStop name # reap now names
      | ArithmeticError \<Rightarrow> [])"

text \<open>
  The names the embedded Python prints: the ids of the running containers that start
  with \<open>nanoclaw-\<close>, in listing order.  The ids are single shell words.
\<close>

definition running_names :: "container list \<Rightarrow> string list" where
  "running_names listing =
     map container_id
       (filter (\<lambda>c. container_status c = ''running'' \<and> startsWith (container_id c) ''nanoclaw-'')
          listing)"

definition cleanup_containers :: "int \<Rightarrow> container list \<Rightarrow> watchdog_event list" where
  "cleanup_containers now listing = reap now (running_names listing)"

subsection \<open>The heartbeat check\<close>

definition MAX_STALE_SECONDS :: int where
  "MAX_STALE_SECONDS = 300"

text \<open>
  The heartbeat file: absent, empty, or holding the epoch milliseconds that the host
  wrote.
\<close>

datatype heartbeat_file = NoFile | EmptyFile | Beat int

definition check_heartbeat :: "int \<Rightarrow> heartbeat_file \<Rightarrow> watchdog_event list" where
  "check_heartbeat now hb =
     (case hb of
        NoFile \<Rightarrow> [LogNoHeartbeat]
      | EmptyFile \<Rightarrow> [LogEmpty]
      | Beat last_beat \<Rightarrow>
          (let now_ms = sh_mul now 1000;
               age_ms = sh_sub now_ms last_beat;
               age_s = sh_div age_ms 1000
           in if age_s > MAX_STALE_SECONDS then [LogStale age_s, Pkill, LogKilled] else []))"

text \<open>
  The whole script: the reaper always runs first; \<open>date +%s\<close> is read once by the
  reaper and once more by the heartbeat check.
\<close>

definition watchdog :: "int \<Rightarrow> int \<Rightarrow> container list \<Rightarrow> heartbeat_file \<Rightarrow> watchdog_event list" where
  "watchdog now1 now2 listing hb = cleanup_containers now1 listing @ check_heartbeat now2 hb"

section \<open>Properties of the Slack channel\<close>

lemma posted_append: "posted (xs @ ys) = posted xs @ posted ys"
  by (induction xs rule: posted.induct) auto

lemma chunk_count_step:
  "i < (n::nat) \<Longrightarrow> (n - i + 3999) div 4000 = Suc ((n - (i + 4000) + 3999) div 4000)"
proof (cases "i + 4000 \<le> n")
  case True
  then have "n - i + 3999 = (n - (i + 4000) + 3999) + 4000" by simp
  then show ?thesis by (simp only: div_add_self2)
next
  case False
  assume "i < n"
  with False have a: "n - (i + 4000) = 0" and b: "4000 \<le> n - i + 3999" and c: "n - i + 3999 < 8000"
    by simp_all
  have "(n - i + 3999) div 4000 = 1"
    using b c by (simp add: div_nat_eqI)
  then show ?thesis using a by simp
qed

lemma post_chunks_done: "\<not> i < length t \<Longrightarrow> post_chunks post_ok c t i k = (Inr (), [])"
  by (subst post_chunks.simps) simp

lemma post_chunks_step:
  "i < length t \<Longrightarrow> post_ok k \<Longrightarrow>
   post_chunks post_ok c t i k =
     (fst (post_chunks post_ok c t (i + MAX_LENGTH) (Suc k)),
      PostMessage c (slice t i (i + MAX_LENGTH)) # snd (post_chunks post_ok c t (i + MAX_LENGTH) (Suc k)))"
  by (subst post_chunks.simps) (simp add: split_beta)

lemma post_chunks_fail:
  "i < length t \<Longrightarrow> \<not> post_ok k \<Longrightarrow>
   post_chunks post_ok c t i k = (Inl TransportError, [PostMessage c (slice t i (i + MAX_LENGTH))])"
  by (subst post_chunks.simps) simp

lemma post_chunks_all_ok:
  assumes ok: "\<And>k. post_ok k"
  shows "fst (post_chunks post_ok c t i k) = Inr ()"
proof (induction "length t - i" arbitrary: i k rule: less_induct)
  case less
  show ?case
  proof (cases "i < length t")
    case False
    then show ?thesis by (simp add: post_chunks_done)
  next
    case True
    have "fst (post_chunks post_ok c t (i + MAX_LENGTH) (Suc k)) = Inr ()"
      using True by (intro less) (simp add: MAX_LENGTH_def)
    then show ?thesis
      using True ok by (simp add: post_chunks_step)
  qed
qed

lemma post_chunks_nth:
  assumes ok: "\<And>k. post_ok k"
  shows "snd (post_chunks post_ok c t i k) =
         map (\<lambda>j. PostMessage c (slice t (i + j * 4000) (i + j * 4000 + 4000)))
             [0 ..< (length t - i + 3999) div 4000]"
proof (induction "length t - i" arbitrary: i k rule: less_induct)
  case less
  show ?case
  proof (cases "i < length t")
    case False
    then show ?thesis
      by (simp add: post_chunks_done)
  next
    case True
    have ih: "snd (post_chunks post_ok c t (i + MAX_LENGTH) (Suc k)) =
         map (\<lambda>j. PostMessage c (slice t (i + MAX_LENGTH + j * 4000) (i + MAX_LENGTH + j * 4000 + 4000)))
             [0 ..< (length t - (i + MAX_LENGTH) + 3999) div 4000]"
      using True by (intro less) (simp add: MAX_LENGTH_def)
    have shift: "map (\<lambda>j. PostMessage c (slice t (i + j * 4000) (i + j * 4000 + 4000))) [0 ..< Suc m]
       = PostMessage c (slice t i (i + 4000)) #
         map (\<lambda>j. PostMessage c (slice t (i + 4000 + j * 4000) (i + 4000 + j * 4000 + 4000))) [0 ..< m]" for m
      by (simp only: upt_conv_Cons[of 0 "Suc m"] zero_less_Suc list.map map_Suc_upt[symmetric] map_map o_def)
         (simp add: add.assoc add.commute)
    show ?thesis
      using ih by (simp only: post_chunks_step[OF True ok] snd_conv chunk_count_step[OF True] shift MAX_LENGTH_def)
  qed
qed

lemma concat_chunks:
  "concat (map (\<lambda>j. slice t (i + j * 4000) (i + j * 4000 + 4000)) [0 ..< (length t - i + 3999) div 4000]) = drop i t"
proof (induction "length t - i" arbitrary: i rule: less_induct)
  case less
  show ?case
  proof (cases "i < length t")
    case False
    then show ?thesis by simp
  next
    case True
    have ih: "concat (map (\<lambda>j. slice t (i + 4000 + j * 4000) (i + 4000 + j * 4000 + 4000))
                 [0 ..< (length t - (i + 4000) + 3999) div 4000]) = drop (i + 4000) t"
      using True by (intro less) simp
    have shift: "map (\<lambda>j. slice t (i + j * 4000) (i + j * 4000 + 4000)) [0 ..< Suc m]
       = slice t i (i + 4000) #
         map (\<lambda>j. slice t (i + 4000 + j * 4000) (i + 4000 + j * 4000 + 4000)) [0 ..< m]" for m
      by (simp only: upt_conv_Cons[of 0 "Suc m"] zero_less_Suc list.map map_Suc_upt[symmetric] map_map o_def)
         (simp add: add.assoc add.commute)
    have "take 4000 (drop i t) @ drop (i + 4000) t = drop i t"
      by (metis add.commute append_take_drop_id drop_drop)
    then show ?thesis
      by (simp only: chunk_count_step[OF True] shift concat.simps ih) (simp add: slice_def)
  qed
qed

lemma posted_PostMessage_map:
  "posted (map (\<lambda>j. PostMessage c (f j)) idx) = map (\<lambda>j. (c, f j)) idx"
  by (induction idx) simp_all

lemma sendMessage_posted:
  assumes conn: "app s \<noteq> None" and ok: "\<And>k. post_ok k"
  shows "posted (snd (sendMessage post_ok s jid t)) =
         map (\<lambda>j. (strip_slack_prefix jid, slice t (j * 4000) (j * 4000 + 4000)))
             [0 ..< (if length t \<le> 4000 then 1 else (length t + 3999) div 4000)]"
proof (cases "length t \<le> 4000")
  case True
  then have "slice t 0 4000 = t" by (simp add: slice_def)
  with True conn ok show ?thesis
    by (auto simp: sendMessage_def send_body_def MAX_LENGTH_def posted_append)
next
  case False
  have f: "fst (post_chunks post_ok (strip_slack_prefix jid) t 0 0) = Inr ()"
    by (rule post_chunks_all_ok[OF ok])
  have n: "snd (post_chunks post_ok (strip_slack_prefix jid) t 0 0) =
         map (\<lambda>j. PostMessage (strip_slack_prefix jid) (slice t (j * 4000) (j * 4000 + 4000)))
             [0 ..< (length t + 3999) div 4000]"
    using post_chunks_nth[of post_ok "strip_slack_prefix jid" t 0 0, OF ok] by simp
  obtain r evs where p: "post_chunks post_ok (strip_slack_prefix jid) t 0 0 = (r, evs)"
    by (cases "post_chunks post_ok (strip_slack_prefix jid) t 0 0")
  from f n p have r: "r = Inr ()" and evs: "evs = map (\<lambda>j. PostMessage (strip_slack_prefix jid) (slice t (j * 4000) (j * 4000 + 4000)))
             [0 ..< (length t + 3999) div 4000]" by simp_all
  from False conn show ?thesis
    by (auto simp: sendMessage_def send_body_def MAX_LENGTH_def p r evs posted_append posted_PostMessage_map)
qed

text \<open>
  Claim C2.  On a connected channel whose transport calls all resolve, \<open>sendMessage\<close>
  posts the text in consecutive slices of \<open>MAX_LENGTH\<close> = 4000 code units: the
  \<open>j\<close>-th call carries \<open>text.slice(4000 j, 4000 j + 4000)\<close>, every call but the last
  carries exactly 4000 code units, the chunks concatenated in call order are the text,
  a text of at most 4000 code units is one call, and a text of 4001 code units is two
  calls, the second of one code unit.
\<close>

theorem sendMessage_chunks:
  assumes conn: "app s \<noteq> None" and ok: "\<forall>k. post_ok k"
  shows "let calls = posted (snd (sendMessage post_ok s jid t)); cs = map snd calls in
           fst (sendMessage post_ok s jid t) = Inr () \<and>
           concat cs = t \<and>
           (\<forall>j < length cs. cs ! j = slice t (j * MAX_LENGTH) (j * MAX_LENGTH + MAX_LENGTH)) \<and>
           (\<forall>j. Suc j < length cs \<longrightarrow> length (cs ! j) = MAX_LENGTH) \<and>
           (\<forall>j < length cs. length (cs ! j) \<le> MAX_LENGTH) \<and>
           (\<forall>j < length calls. fst (calls ! j) = strip_slack_prefix jid) \<and>
           (length t \<le> MAX_LENGTH \<longrightarrow> cs = [t]) \<and>
           (length t = MAX_LENGTH + 1 \<longrightarrow> length cs = 2 \<and> length (cs ! 1) = 1)"
proof -
  define n where "n = (if length t \<le> 4000 then 1 else (length t + 3999) div 4000)"
  have ok': "\<And>k. post_ok k" using ok by simp
  have calls: "posted (snd (sendMessage post_ok s jid t)) =
         map (\<lambda>j. (strip_slack_prefix jid, slice t (j * 4000) (j * 4000 + 4000))) [0 ..< n]"
    unfolding n_def by (rule sendMessage_posted[OF conn ok'])
  have cs: "map snd (posted (snd (sendMessage post_ok s jid t))) =
         map (\<lambda>j. slice t (j * 4000) (j * 4000 + 4000)) [0 ..< n]"
    by (simp add: calls o_def)
  have res: "fst (sendMessage post_ok s jid t) = Inr ()"
    using conn by (auto simp: sendMessage_def split: option.splits prod.splits sum.splits)
  have cat: "concat (map (\<lambda>j. slice t (j * 4000) (j * 4000 + 4000)) [0 ..< n]) = t"
  proof (cases "length t \<le> 4000")
    case True
    then show ?thesis by (simp add: n_def slice_def)
  next
    case False
    then show ?thesis using concat_chunks[of t 0] by (simp add: n_def)
  qed
  have full: "length (slice t (j * 4000) (j * 4000 + 4000)) = 4000" if "Suc j < n" for j
  proof -
    have "\<not> length t \<le> 4000" using that by (auto simp: n_def split: if_splits)
    then have "Suc j < (length t + 3999) div 4000" using that by (simp add: n_def)
    then have "Suc (Suc j) \<le> (length t + 3999) div 4000" by simp
    then have "Suc (Suc j) * 4000 \<le> length t + 3999"
      by (simp only: less_eq_div_iff_mult_less_eq[of 4000, simplified])
    then show ?thesis by (simp add: slice_def)
  qed
  have one: "map (\<lambda>j. slice t (j * 4000) (j * 4000 + 4000)) [0 ..< n] = [t]" if "length t \<le> 4000"
    using that by (simp add: n_def slice_def)
  have two: "n = 2 \<and> length (slice t 4000 8000) = 1" if "length t = 4001"
    using that by (simp add: n_def slice_def)
  have len: "length (slice t (j * 4000) (j * 4000 + 4000)) \<le> 4000" for j
    by (simp add: slice_def)
  show ?thesis
    apply (simp only: Let_def cs MAX_LENGTH_def)
    apply (simp only: calls)
    apply (intro conjI)
    subgoal by (rule res)
    subgoal by (rule cat)
    subgoal by simp
    subgoal using full by simp
    subgoal using len by simp
    subgoal by simp
    subgoal using one by simp
    subgoal using two by simp
    done
qed

theorem sendMessage_chunks_witness:
  "let s = fst (snd (connect True (SlackChannel (js ''xoxb-token'') (js ''xapp-token''))));
       t1 = replicate 4000 (0x79 :: code_unit);
       t2 = replicate 4001 (0x78 :: code_unit);
       c1 = map snd (posted (snd (sendMessage (\<lambda>k. True) s (js ''slack:U100200300'') t1)));
       c2 = map snd (posted (snd (sendMessage (\<lambda>k. True) s (js ''slack:U100200300'') t2)))
   in app s \<noteq> None \<and> c1 = [t1] \<and> length c2 = 2 \<and> length (c2 ! 1) = 1 \<and> concat c2 = t2"
proof -
  let ?s = "fst (snd (connect True (SlackChannel (js ''xoxb-token'') (js ''xapp-token''))))"
  let ?t1 = "replicate 4000 (0x79 :: code_unit)"
  let ?t2 = "replicate 4001 (0x78 :: code_unit)"
  have conn: "app ?s \<noteq> None"
    by (simp add: connect_def Let_def)
  have ok: "\<forall>k. (\<lambda>k. True) k"
    by simp
  have one: "map snd (posted (snd (sendMessage (\<lambda>k. True) ?s (js ''slack:U100200300'') ?t1))) = [?t1]"
    using sendMessage_chunks [OF conn ok, of "js ''slack:U100200300''" ?t1]
    by (simp add: Let_def MAX_LENGTH_def)
  have two: "length (map snd (posted (snd (sendMessage (\<lambda>k. True) ?s (js ''slack:U100200300'') ?t2)))) = 2
      \<and> length (map snd (posted (snd (sendMessage (\<lambda>k. True) ?s (js ''slack:U100200300'') ?t2))) ! 1) = 1
      \<and> concat (map snd (posted (snd (sendMessage (\<lambda>k. True) ?s (js ''slack:U100200300'') ?t2)))) = ?t2"
  proof -
    have len: "length ?t2 = MAX_LENGTH + 1"
      by (simp add: MAX_LENGTH_def)
    show ?thesis
      using sendMessage_chunks [OF conn ok, of "js ''slack:U100200300''" ?t2] len
      unfolding Let_def by blast
  qed
  show ?thesis
    unfolding Let_def using conn one two by blast
qed

lemma sendMessage_resolves: "fst (sendMessage post_ok s jid t) = Inr ()"
  by (simp add: sendMessage_def split: option.splits prod.splits sum.splits)

lemma resolveUserName_events:
  "snd (snd (resolveUserName users_info s userId)) \<in>
     {[], [LogDebug], [UsersInfo userId], [UsersInfo userId, LogDebug]}"
  by (auto simp: resolveUserName_def lookup_user_def Let_def split: option.splits sum.splits)

lemma resolveUserName_no_callbacks:
  "OnMessage j m \<notin> set (snd (snd (resolveUserName users_info s userId)))"
  "OnChatMetadata j a b \<notin> set (snd (snd (resolveUserName users_info s userId)))"
  using resolveUserName_events[of users_info s userId] by auto

lemma resolveUserName_fallback:
  "\<not> truthy (userNameCache s userId) \<Longrightarrow> fst (lookup_user users_info s userId) = Inl err \<Longrightarrow>
   fst (resolveUserName users_info s userId) = userId"
  by (cases "lookup_user users_info s userId") (auto simp: resolveUserName_def)

lemma on_message_passed:
  assumes "channel_type msg = Some (js ''im'')" and "\<not> truthy (subtype msg)"
    and "truthy (user msg)" and "toISOString (ts msg) = Some stamp"
  shows "on_message toISOString users_info registeredGroups s msg =
     (let userId = or_else (user msg) []; chatJid = js ''slack:'' @ userId;
          r = resolveUserName users_info s userId
      in (Inr (), fst (snd r),
          snd (snd r) @ OnChatMetadata chatJid stamp (fst r) #
            (case registeredGroups chatJid of
               None \<Rightarrow> [LogDebug]
             | Some grp \<Rightarrow>
                 [OnMessage chatJid
                    \<lparr>msg_id = ts msg, chat_jid = chatJid, sender = userId,
                     sender_name = fst r, content = or_else (message_text msg) [],
                     timestamp = stamp, is_from_me = False\<rparr>,
                  LogInfo])))"
  using assms
  by (simp add: on_message_def Let_def split: prod.splits option.splits)

text \<open>
  Claim C8.  For an inbound event that passes the filters of the handler (its
  \<open>channel_type\<close> is \<open>im\<close>, it has no subtype, its user id is present) and whose \<open>ts\<close>
  gives a timestamp, the handler resolves, calls \<open>onChatMetadata\<close> with the chat JID,
  the timestamp and the resolved sender name whether or not the chat is registered,
  and calls \<open>onMessage\<close> with the normalized message if and only if the chat JID is a
  key of the registered groups; it makes no other \<open>onMessage\<close> call.
\<close>

theorem inbound_dm_routing:
  assumes im: "channel_type msg = Some (js ''im'')" and st: "\<not> truthy (subtype msg)"
    and us: "truthy (user msg)" and iso: "toISOString (ts msg) = Some stamp"
  shows "let userId = or_else (user msg) [];
             chatJid = js ''slack:'' @ userId;
             senderName = fst (resolveUserName users_info s userId);
             normalized = \<lparr>msg_id = ts msg, chat_jid = chatJid, sender = userId,
                           sender_name = senderName, content = or_else (message_text msg) [],
                           timestamp = stamp, is_from_me = False\<rparr>;
             r = on_message toISOString users_info registeredGroups s msg;
             evs = snd (snd r)
         in fst r = Inr () \<and>
            OnChatMetadata chatJid stamp senderName \<in> set evs \<and>
            (OnMessage chatJid normalized \<in> set evs \<longleftrightarrow> registeredGroups chatJid \<noteq> None) \<and>
            (\<forall>j m. OnMessage j m \<in> set evs \<longrightarrow>
                     j = chatJid \<and> m = normalized \<and> registeredGroups chatJid \<noteq> None)"
  using resolveUserName_no_callbacks(1)[of _ _ users_info s "or_else (user msg) []"]
  by (auto simp: on_message_passed[where toISOString=toISOString and msg=msg and stamp=stamp, OF im st us iso] Let_def split: option.splits)

text \<open>
  Claim C9.  Transport faults do not leave the channel: \<open>sendMessage\<close> resolves for
  every transport behaviour, every channel state, every jid and every text; when
  the lookup of a user that is not cached fails, \<open>resolveUserName\<close> returns the raw
  user id; and the inbound handler then still resolves, still calls
  \<open>onChatMetadata\<close>, and still forwards the message of a registered chat, with the
  raw user id as the sender name.
\<close>

theorem transport_faults_stay_inside:
  "fst (sendMessage post_ok s jid t) = Inr () \<and>
   (\<not> truthy (userNameCache s userId) \<and> fst (lookup_user users_info s userId) = Inl err \<longrightarrow>
      fst (resolveUserName users_info s userId) = userId) \<and>
   (channel_type msg = Some (js ''im'') \<and> \<not> truthy (subtype msg) \<and> user msg = Some userId \<and>
    userId \<noteq> [] \<and> toISOString (ts msg) = Some stamp \<and>
    \<not> truthy (userNameCache s userId) \<and> fst (lookup_user users_info s userId) = Inl err \<longrightarrow>
      fst (on_message toISOString users_info registeredGroups s msg) = Inr () \<and>
      OnChatMetadata (js ''slack:'' @ userId) stamp userId
        \<in> set (snd (snd (on_message toISOString users_info registeredGroups s msg))) \<and>
      (registeredGroups (js ''slack:'' @ userId) \<noteq> None \<longrightarrow>
         OnMessage (js ''slack:'' @ userId)
           \<lparr>msg_id = ts msg, chat_jid = js ''slack:'' @ userId, sender = userId,
            sender_name = userId, content = or_else (message_text msg) [],
            timestamp = stamp, is_from_me = False\<rparr>
         \<in> set (snd (snd (on_message toISOString users_info registeredGroups s msg)))))"
proof (intro conjI impI)
  show "fst (sendMessage post_ok s jid t) = Inr ()" by (rule sendMessage_resolves)
next
  assume "\<not> truthy (userNameCache s userId) \<and> fst (lookup_user users_info s userId) = Inl err"
  then show "fst (resolveUserName users_info s userId) = userId"
    by (simp add: resolveUserName_fallback)
next
  assume a: "channel_type msg = Some (js ''im'') \<and> \<not> truthy (subtype msg) \<and> user msg = Some userId \<and>
    userId \<noteq> [] \<and> toISOString (ts msg) = Some stamp \<and>
    \<not> truthy (userNameCache s userId) \<and> fst (lookup_user users_info s userId) = Inl err"
  then have u: "truthy (user msg)" "or_else (user msg) [] = userId"
    by (simp_all add: truthy_def or_else_def)
  from a have n: "fst (resolveUserName users_info s userId) = userId"
    by (simp add: resolveUserName_fallback)
  have eq: "on_message toISOString users_info registeredGroups s msg = 
     (let userId = or_else (user msg) []; chatJid = js ''slack:'' @ userId;
          r = resolveUserName users_info s userId
      in (Inr (), fst (snd r),
          snd (snd r) @ OnChatMetadata chatJid stamp (fst r) #
            (case registeredGroups chatJid of
               None \<Rightarrow> [LogDebug]
             | Some grp \<Rightarrow>
                 [OnMessage chatJid
                    \<lparr>msg_id = ts msg, chat_jid = chatJid, sender = userId,
                     sender_name = fst r, content = or_else (message_text msg) [],
                     timestamp = stamp, is_from_me = False\<rparr>,
                  LogInfo])))"
    using a u by (intro on_message_passed[where toISOString=toISOString and msg=msg and stamp=stamp]) simp_all
  show "fst (on_message toISOString users_info registeredGroups s msg) = Inr ()"
    by (simp add: eq Let_def)
  show "OnChatMetadata (js ''slack:'' @ userId) stamp userId
        \<in> set (snd (snd (on_message toISOString users_info registeredGroups s msg)))"
    by (simp add: eq Let_def u n)
  assume "registeredGroups (js ''slack:'' @ userId) \<noteq> None"
  then show "OnMessage (js ''slack:'' @ userId)
           \<lparr>msg_id = ts msg, chat_jid = js ''slack:'' @ userId, sender = userId,
            sender_name = userId, content = or_else (message_text msg) [],
            timestamp = stamp, is_from_me = False\<rparr>
         \<in> set (snd (snd (on_message toISOString users_info registeredGroups s msg)))"
    by (auto simp add: eq Let_def u n)
qed

text \<open>
  Claim C10.  A channel that is not connected (freshly constructed, or after a
  \<open>disconnect\<close> that resolved) reports \<open>isConnected() = false\<close>, and \<open>sendMessage\<close> on
  it resolves after a single warning, with no transport call.
\<close>

theorem send_when_disconnected:
  "\<not> isConnected (SlackChannel bot_token application_token) \<and>
   (\<not> isConnected s \<longrightarrow>
      fst (sendMessage post_ok s jid t) = Inr () \<and>
      snd (sendMessage post_ok s jid t) = [LogWarn] \<and>
      posted (snd (sendMessage post_ok s jid t)) = []) \<and>
   (fst (disconnect stop_ok s) = Inr () \<longrightarrow>
      \<not> isConnected (fst (snd (disconnect stop_ok s))) \<and>
      fst (sendMessage post_ok (fst (snd (disconnect stop_ok s))) jid t) = Inr () \<and>
      posted (snd (sendMessage post_ok (fst (snd (disconnect stop_ok s))) jid t)) = [])"
  by (auto simp: isConnected_def SlackChannel_def sendMessage_def disconnect_def
           split: option.splits if_splits)

theorem inbound_dm_routing_witness:
  "let msg = \<lparr>channel_type = Some (js ''im''), subtype = None, user = Some (js ''U1''),
              message_text = Some (js ''Hello''), ts = Some (js ''1704067200.000100'')\<rparr>;
       s = fst (snd (connect True (SlackChannel (js ''xoxb-token'') (js ''xapp-token''))));
       grp = \<lparr>group_name = js ''Skip DM'', folder = js ''main'', trigger = js ''@Andy'',
              added_at = js ''2024-01-01T00:00:00.000Z''\<rparr>;
       info = (\<lambda>u. Inr (Some \<lparr>profile = Some \<lparr>display_name = Some (js ''Alice'')\<rparr>,
                                real_name = Some (js ''Alice Smith''), user_name = Some (js ''alice'')\<rparr>));
       iso = (\<lambda>t. Some (js ''2024-01-01T00:00:00.000Z''));
       normalized = \<lparr>msg_id = Some (js ''1704067200.000100''), chat_jid = js ''slack:U1'',
                     sender = js ''U1'', sender_name = js ''Alice'', content = js ''Hello'',
                     timestamp = js ''2024-01-01T00:00:00.000Z'', is_from_me = False\<rparr>
   in channel_type msg = Some (js ''im'') \<and> \<not> truthy (subtype msg) \<and> truthy (user msg) \<and>
      OnChatMetadata (js ''slack:U1'') (js ''2024-01-01T00:00:00.000Z'') (js ''Alice'')
        \<in> set (snd (snd (on_message iso info [js ''slack:U1'' \<mapsto> grp] s msg))) \<and>
      OnMessage (js ''slack:U1'') normalized
        \<in> set (snd (snd (on_message iso info [js ''slack:U1'' \<mapsto> grp] s msg))) \<and>
      OnChatMetadata (js ''slack:U1'') (js ''2024-01-01T00:00:00.000Z'') (js ''Alice'')
        \<in> set (snd (snd (on_message iso info Map.empty s msg))) \<and>
      OnMessage (js ''slack:U1'') normalized
        \<notin> set (snd (snd (on_message iso info Map.empty s msg)))"
  using inbound_dm_routing [of
      "\<lparr>channel_type = Some (js ''im''), subtype = None, user = Some (js ''U1''),
              message_text = Some (js ''Hello''), ts = Some (js ''1704067200.000100'')\<rparr>"
      "\<lambda>t. Some (js ''2024-01-01T00:00:00.000Z'')" "js ''2024-01-01T00:00:00.000Z''"
      "\<lambda>u. Inr (Some \<lparr>profile = Some \<lparr>display_name = Some (js ''Alice'')\<rparr>,
                                real_name = Some (js ''Alice Smith''), user_name = Some (js ''alice'')\<rparr>)"
      "fst (snd (connect True (SlackChannel (js ''xoxb-token'') (js ''xapp-token''))))"
      "[js ''slack:U1'' \<mapsto> \<lparr>group_name = js ''Skip DM'', folder = js ''main'', trigger = js ''@Andy'',
              added_at = js ''2024-01-01T00:00:00.000Z''\<rparr>]"]
    inbound_dm_routing [of
      "\<lparr>channel_type = Some (js ''im''), subtype = None, user = Some (js ''U1''),
              message_text = Some (js ''Hello''), ts = Some (js ''1704067200.000100'')\<rparr>"
      "\<lambda>t. Some (js ''2024-01-01T00:00:00.000Z'')" "js ''2024-01-01T00:00:00.000Z''"
      "\<lambda>u. Inr (Some \<lparr>profile = Some \<lparr>display_name = Some (js ''Alice'')\<rparr>,
                                real_name = Some (js ''Alice Smith''), user_name = Some (js ''alice'')\<rparr>)"
      "fst (snd (connect True (SlackChannel (js ''xoxb-token'') (js ''xapp-token''))))"
      "Map.empty"]
  by (simp add: Let_def truthy_def or_else_def js_def connect_def SlackChannel_def
        resolveUserName_def lookup_user_def fallback_name_def)

theorem transport_faults_stay_inside_witness:
  "let msg = \<lparr>channel_type = Some (js ''im''), subtype = None, user = Some (js ''U1''),
              message_text = Some (js ''Hello''), ts = Some (js ''1704067200.000100'')\<rparr>;
       s = fst (snd (connect True (SlackChannel (js ''xoxb-token'') (js ''xapp-token''))));
       grp = \<lparr>group_name = js ''Skip DM'', folder = js ''main'', trigger = js ''@Andy'',
              added_at = js ''2024-01-01T00:00:00.000Z''\<rparr>;
       info = (\<lambda>u. Inl TransportError);
       iso = (\<lambda>t. Some (js ''2024-01-01T00:00:00.000Z''))
   in fst (sendMessage (\<lambda>k. False) s (js ''slack:U1'') (js ''Will fail'')) = Inr () \<and>
      \<not> truthy (userNameCache s (js ''U1'')) \<and>
      fst (lookup_user info s (js ''U1'')) = Inl TransportError \<and>
      fst (resolveUserName info s (js ''U1'')) = js ''U1'' \<and>
      fst (on_message iso info [js ''slack:U1'' \<mapsto> grp] s msg) = Inr () \<and>
      OnMessage (js ''slack:U1'')
        \<lparr>msg_id = Some (js ''1704067200.000100''), chat_jid = js ''slack:U1'',
         sender = js ''U1'', sender_name = js ''U1'', content = js ''Hello'',
         timestamp = js ''2024-01-01T00:00:00.000Z'', is_from_me = False\<rparr>
        \<in> set (snd (snd (on_message iso info [js ''slack:U1'' \<mapsto> grp] s msg)))"
  using transport_faults_stay_inside [of "\<lambda>k. False"
      "fst (snd (connect True (SlackChannel (js ''xoxb-token'') (js ''xapp-token''))))"
      "js ''slack:U1''" "js ''Will fail''" "js ''U1''" "\<lambda>u. Inl TransportError" TransportError
      "\<lparr>channel_type = Some (js ''im''), subtype = None, user = Some (js ''U1''),
              message_text = Some (js ''Hello''), ts = Some (js ''1704067200.000100'')\<rparr>"
      "\<lambda>t. Some (js ''2024-01-01T00:00:00.000Z'')" "js ''2024-01-01T00:00:00.000Z''"
      "[js ''slack:U1'' \<mapsto> \<lparr>group_name = js ''Skip DM'', folder = js ''main'', trigger = js ''@Andy'',
              added_at = js ''2024-01-01T00:00:00.000Z''\<rparr>]"]
  by (simp add: Let_def truthy_def or_else_def js_def connect_def SlackChannel_def lookup_user_def)

theorem send_when_disconnected_witness:
  "let s0 = SlackChannel (js ''xoxb-token'') (js ''xapp-token'');
       s1 = fst (snd (connect True s0));
       s2 = fst (snd (disconnect True s1))
   in \<not> isConnected s0 \<and> isConnected s1 \<and> fst (disconnect True s1) = Inr () \<and>
      \<not> isConnected s2 \<and>
      fst (sendMessage (\<lambda>k. True) s0 (js ''slack:U1'') (js ''No app'')) = Inr () \<and>
      posted (snd (sendMessage (\<lambda>k. True) s0 (js ''slack:U1'') (js ''No app''))) = [] \<and>
      fst (sendMessage (\<lambda>k. True) s2 (js ''slack:U1'') (js ''No app'')) = Inr () \<and>
      posted (snd (sendMessage (\<lambda>k. True) s2 (js ''slack:U1'') (js ''No app''))) = []"
proof -
  let ?s0 = "SlackChannel (js ''xoxb-token'') (js ''xapp-token'')"
  let ?s1 = "fst (snd (connect True ?s0))"
  have c: "isConnected ?s1"
    by (simp add: isConnected_def connect_def Let_def)
  have d: "fst (disconnect True ?s1) = Inr ()"
    by (simp add: disconnect_def connect_def Let_def)
  have n0: "\<not> isConnected ?s0"
    by (simp add: isConnected_def SlackChannel_def)
  show ?thesis
    using send_when_disconnected [of "js ''xoxb-token''" "js ''xapp-token''" ?s0 "\<lambda>k. True"
            "js ''slack:U1''" "js ''No app''" True]
          send_when_disconnected [of "js ''xoxb-token''" "js ''xapp-token''" ?s1 "\<lambda>k. True"
            "js ''slack:U1''" "js ''No app''" True]
          c d n0
    unfolding Let_def by blast
qed

section \<open>Properties of the command-line chat\<close>

lemma startsWith_open_hd: "startsWith (c # cs) INTERNAL_OPEN \<Longrightarrow> c = 0x3C"
  by (simp add: startsWith_def INTERNAL_OPEN_def js_def)

lemma startsWith_close_hd: "startsWith (c # cs) INTERNAL_CLOSE \<Longrightarrow> c = 0x3C"
  by (simp add: startsWith_def INTERNAL_CLOSE_def js_def)

lemma strip_internal_plain:
  "0x3C \<notin> set a \<Longrightarrow> strip_internal (a @ rest) = a @ strip_internal rest"
proof (induction a)
  case Nil
  then show ?case by simp
next
  case (Cons c a)
  then have "\<not> startsWith (c # a @ rest) INTERNAL_OPEN"
    using startsWith_open_hd[of c "a @ rest"] by auto
  with Cons show ?case by simp
qed

lemma startsWith_append: "startsWith (p @ rest) p"
  by (simp add: startsWith_def)

lemma indexOf_plain:
  "0x3C \<notin> set b \<Longrightarrow> indexOf (b @ INTERNAL_CLOSE @ rest) INTERNAL_CLOSE = Some (length b)"
proof (induction b)
  case Nil
  have "INTERNAL_CLOSE \<noteq> []" by (simp add: INTERNAL_CLOSE_def js_def)
  then obtain c cs where cl: "INTERNAL_CLOSE = c # cs" by (cases INTERNAL_CLOSE) auto
  have "startsWith (INTERNAL_CLOSE @ rest) INTERNAL_CLOSE" by (rule startsWith_append)
  then show ?case
    by (simp add: cl)
next
  case (Cons c b)
  then have "\<not> startsWith (c # b @ INTERNAL_CLOSE @ rest) INTERNAL_CLOSE"
    using startsWith_close_hd[of c "b @ INTERNAL_CLOSE @ rest"] by auto
  with Cons show ?case by simp
qed

lemma strip_internal_region:
  assumes "0x3C \<notin> set b"
  shows "strip_internal (INTERNAL_OPEN @ b @ INTERNAL_CLOSE @ rest) = strip_internal rest"
proof -
  obtain c cs where op: "INTERNAL_OPEN = c # cs"
    by (cases INTERNAL_OPEN) (auto simp: INTERNAL_OPEN_def js_def)
  have sw: "startsWith (c # cs @ b @ INTERNAL_CLOSE @ rest) INTERNAL_OPEN"
    using startsWith_append[of INTERNAL_OPEN "b @ INTERNAL_CLOSE @ rest"] by (simp add: op)
  have dr: "drop (length INTERNAL_OPEN) (c # cs @ b @ INTERNAL_CLOSE @ rest) = b @ INTERNAL_CLOSE @ rest"
    by (simp add: op)
  have dr2: "drop (length INTERNAL_OPEN + length b + length INTERNAL_CLOSE) (c # cs @ b @ INTERNAL_CLOSE @ rest) = rest"
    using op by (metis append.assoc append_Cons append_eq_conv_conj length_append)
  show ?thesis
    unfolding op append_Cons
    by (subst strip_internal.simps(2)) (simp only: sw dr dr2 if_True indexOf_plain[OF assms] option.case)
qed

lemma strip_internal_one_region:
  assumes "0x3C \<notin> set a" and "0x3C \<notin> set b" and "0x3C \<notin> set e"
  shows "strip_internal (a @ INTERNAL_OPEN @ b @ INTERNAL_CLOSE @ e) = a @ e"
  using strip_internal_plain[OF assms(1)] strip_internal_region[OF assms(2)]
        strip_internal_plain[OF assms(3), of "[]"]
  by simp

lemma trim_no_outer_space:
  "trim s \<noteq> [] \<Longrightarrow> \<not> is_white_space (hd (trim s)) \<and> \<not> is_white_space (last (trim s))"
proof -
  assume ne: "trim s \<noteq> []"
  let ?a = "dropWhile is_white_space s"
  let ?b = "dropWhile is_white_space (rev ?a)"
  from ne have b: "?b \<noteq> []" by (simp add: trim_def)
  then have lastb: "\<not> is_white_space (hd ?b)" by (rule hd_dropWhile)
  from b have a: "?a \<noteq> []" by (cases "?a") simp_all
  then have ha: "\<not> is_white_space (hd ?a)" by (rule hd_dropWhile)
  have "last (trim s) = hd ?b" using b by (simp add: trim_def last_rev)
  moreover have "hd (trim s) = last ?b" using b by (simp add: trim_def hd_rev)
  moreover have "last ?b = last (rev ?a)"
  proof -
    have "rev ?a = takeWhile is_white_space (rev ?a) @ ?b" by simp
    then show ?thesis using b by (metis last_appendR)
  qed
  moreover have "last (rev ?a) = hd ?a" using a by (simp add: last_rev)
  ultimately show ?thesis using lastb ha by simp
qed

lemma trim_unchanged:
  "s \<noteq> [] \<Longrightarrow> \<not> is_white_space (hd s) \<Longrightarrow> \<not> is_white_space (last s) \<Longrightarrow> trim s = s"
proof -
  assume s: "s \<noteq> []" and h: "\<not> is_white_space (hd s)" and l: "\<not> is_white_space (last s)"
  from s h have a: "dropWhile is_white_space s = s" by (cases s) auto
  from s l have "dropWhile is_white_space (rev s) = rev s" by (cases "rev s") (auto simp: last_rev hd_rev)
  with a show ?thesis by (simp add: trim_def)
qed

lemma map_of_unlink: "map_of (unlink g d) f = (if f = g then None else map_of d f)"
  by (induction d) (auto simp: unlink_def)

lemma process_file_malformed:
  "map_of d f = Some c \<Longrightarrow> parse c = None \<Longrightarrow> process_file parse N f d = (d, [])"
  by (simp add: process_file_def)

lemma process_file_other:
  assumes "map_of d f = Some c" and "parse c = None"
  shows "map_of (fst (process_file parse N g d)) f = Some c
         \<and> Unlink f \<notin> set (snd (process_file parse N g d))
         \<and> (\<forall>l. ConsoleLog l \<in> set (snd (process_file parse N g d)) \<longrightarrow> g \<noteq> f)"
proof (cases "g = f")
  case True
  with assms show ?thesis by (simp add: process_file_def)
next
  case False
  have "Unlink f \<notin> set evs" if "deliver N data = Inr evs" for data evs
    using that
    by (auto simp: deliver_def Let_def split: sum.splits if_splits option.splits json.splits)
  with False assms show ?thesis
    by (auto simp: process_file_def map_of_unlink split: option.splits sum.splits)
qed

lemma process_files_keep:
  assumes "map_of d f = Some c" and "parse c = None"
  shows "map_of (fst (process_files parse N fs d)) f = Some c
         \<and> Unlink f \<notin> set (snd (process_files parse N fs d))"
  using assms(1)
proof (induction fs arbitrary: d)
  case Nil
  then show ?case by simp
next
  case (Cons g fs)
  obtain d1 e1 where p1: "process_file parse N g d = (d1, e1)"
    by (cases "process_file parse N g d")
  obtain d2 e2 where p2: "process_files parse N fs d1 = (d2, e2)"
    by (cases "process_files parse N fs d1")
  from process_file_other[where parse=parse and c=c and N=N and g=g, OF Cons.prems assms(2)] p1
  have k1: "map_of d1 f = Some c" and u1: "Unlink f \<notin> set e1" by simp_all
  from Cons.IH[OF k1] p2 have "map_of d2 f = Some c" and "Unlink f \<notin> set e2" by simp_all
  with u1 show ?case by (simp add: p1 p2)
qed

lemma ipcInterval_keep:
  assumes "map_of d f = Some c" and "parse c = None"
  shows "\<exists>d'. fst (ipcInterval parse N (Some d)) = Some d' \<and> map_of d' f = Some c
              \<and> Unlink f \<notin> set (snd (ipcInterval parse N (Some d)))"
  using process_files_keep[where parse=parse and c=c and N=N and fs="filter (\<lambda>f. endsWith f (js ''.json'')) (map fst d)", OF assms]
  by (auto simp: ipcInterval_def Let_def split: prod.splits)

lemma polls_keep:
  assumes "map_of d f = Some c" and "parse c = None"
  shows "\<exists>d'. fst (polls parse N n (Some d)) = Some d' \<and> map_of d' f = Some c
              \<and> Unlink f \<notin> set (snd (polls parse N n (Some d)))"
  using assms(1)
proof (induction n arbitrary: d)
  case 0
  then show ?case by simp
next
  case (Suc n)
  obtain m1 e1 where p1: "ipcInterval parse N (Some d) = (m1, e1)"
    by (cases "ipcInterval parse N (Some d)")
  from ipcInterval_keep[where parse=parse and c=c and N=N, OF Suc.prems assms(2)] p1
  obtain d1 where m1: "m1 = Some d1" and k1: "map_of d1 f = Some c" and u1: "Unlink f \<notin> set e1"
    by auto
  from Suc.IH[OF k1] obtain d2 where
    "fst (polls parse N n (Some d1)) = Some d2" "map_of d2 f = Some c"
    "Unlink f \<notin> set (snd (polls parse N n (Some d1)))" by blast
  with u1 show ?case
    by (auto simp: p1 m1 split: prod.splits)
qed

text \<open>
  Claim C1, as the code has it.  A file of the mailbox whose contents \<open>JSON.parse\<close>
  rejects is skipped: its loop iteration delivers nothing and deletes nothing, and
  however often the poll runs, the file stays in the mailbox with its contents and is
  never unlinked.  So the file is examined again on every later pass.
\<close>

theorem malformed_file_is_skipped:
  assumes "map_of d f = Some c" and "parse c = None"
  shows "process_file parse N f d = (d, []) \<and>
         (\<exists>d'. fst (polls parse N n (Some d)) = Some d' \<and> map_of d' f = Some c) \<and>
         Unlink f \<notin> set (snd (polls parse N n (Some d)))"
  using process_file_malformed[where parse=parse and c=c and N=N, OF assms] polls_keep[where parse=parse and c=c and N=N and n=n, OF assms] by blast

text \<open>The specification of the content against the code.\<close>

lemma occurs_at_startsWith:
  "p \<noteq> [] \<Longrightarrow> occurs_at p i s \<longleftrightarrow> startsWith (drop i s) p"
proof
  assume "occurs_at p i s"
  then obtain u v where "s = u @ p @ v" "length u = i" by (auto simp: occurs_at_def)
  then show "startsWith (drop i s) p" by (simp add: startsWith_def)
next
  assume ne: "p \<noteq> []" and sw: "startsWith (drop i s) p"
  then have t: "take (length p) (drop i s) = p" by (simp add: startsWith_def)
  have "drop i s = take (length p) (drop i s) @ drop (length p) (drop i s)"
    by (rule append_take_drop_id[symmetric])
  then have "drop i s = p @ drop (length p) (drop i s)" using t by simp
  moreover have "i \<le> length s"
  proof (rule ccontr)
    assume "\<not> i \<le> length s"
    then have "drop i s = []" by simp
    with t ne show False by simp
  qed
  ultimately have "s = take i s @ p @ drop (length p) (drop i s) \<and> length (take i s) = i"
    by (metis append_take_drop_id length_take min.absorb2)
  then show "occurs_at p i s" unfolding occurs_at_def by blast
qed

lemma open_nonempty: "INTERNAL_OPEN \<noteq> []" and close_nonempty: "INTERNAL_CLOSE \<noteq> []"
  by (simp_all add: INTERNAL_OPEN_def INTERNAL_CLOSE_def js_def)

lemma indexOf_None: "p \<noteq> [] \<Longrightarrow> indexOf s p = None \<longleftrightarrow> (\<forall>j. \<not> startsWith (drop j s) p)"
proof (induction s)
  case Nil
  then show ?case by (simp add: startsWith_def)
next
  case (Cons c cs)
  show ?case
  proof (cases "startsWith (c # cs) p")
    case True
    then have "startsWith (drop 0 (c # cs)) p" by simp
    with True show ?thesis by (metis indexOf.simps(2) option.distinct(1))
  next
    case False
    have "(\<forall>j. \<not> startsWith (drop j (c # cs)) p) \<longleftrightarrow> (\<forall>j. \<not> startsWith (drop j cs) p)"
    proof
      assume a: "\<forall>j. \<not> startsWith (drop j (c # cs)) p"
      show "\<forall>j. \<not> startsWith (drop j cs) p"
      proof
        fix j from a have "\<not> startsWith (drop (Suc j) (c # cs)) p" by blast
        then show "\<not> startsWith (drop j cs) p" by simp
      qed
    next
      assume a: "\<forall>j. \<not> startsWith (drop j cs) p"
      show "\<forall>j. \<not> startsWith (drop j (c # cs)) p"
      proof
        fix j show "\<not> startsWith (drop j (c # cs)) p"
          using False a by (cases j) simp_all
      qed
    qed
    with False Cons show ?thesis by simp
  qed
qed

lemma indexOf_Some:
  "startsWith (drop n s) p \<Longrightarrow> (\<And>j. j < n \<Longrightarrow> \<not> startsWith (drop j s) p) \<Longrightarrow> p \<noteq> [] \<Longrightarrow>
   indexOf s p = Some n"
proof (induction s arbitrary: n)
  case Nil
  then show ?case by (simp add: startsWith_def)
next
  case (Cons c cs)
  show ?case
  proof (cases n)
    case 0
    with Cons.prems(1) show ?thesis by simp
  next
    case (Suc m)
    then have nf: "\<not> startsWith (c # cs) p" using Cons.prems(2)[of 0] by simp
    have "startsWith (drop m cs) p" using Cons.prems(1) Suc by simp
    moreover have "\<And>j. j < m \<Longrightarrow> \<not> startsWith (drop j cs) p"
      using Cons.prems(2) Suc by (metis Suc_less_eq drop_Suc_Cons)
    ultimately have "indexOf cs p = Some m" using Cons.IH Cons.prems(3) by blast
    with nf Suc show ?thesis by simp
  qed
qed

lemma strip_internal_prefix:
  "(\<And>j. j < length a \<Longrightarrow> \<not> startsWith (drop j (a @ t)) INTERNAL_OPEN) \<Longrightarrow>
   strip_internal (a @ t) = a @ strip_internal t"
proof (induction a)
  case Nil
  then show ?case by simp
next
  case (Cons c a)
  have "\<not> startsWith (c # a @ t) INTERNAL_OPEN" using Cons.prems[of 0] by simp
  moreover have "\<And>j. j < length a \<Longrightarrow> \<not> startsWith (drop j (a @ t)) INTERNAL_OPEN"
    using Cons.prems by (metis Suc_less_eq append_Cons drop_Suc_Cons length_Cons)
  ultimately show ?case using Cons.IH by simp
qed

lemma strip_internal_cut:
  assumes "\<And>j. j < length b \<Longrightarrow> \<not> startsWith (drop j (b @ INTERNAL_CLOSE @ rest)) INTERNAL_CLOSE"
  shows "strip_internal (INTERNAL_OPEN @ b @ INTERNAL_CLOSE @ rest) = strip_internal rest"
proof -
  obtain c cs where op: "INTERNAL_OPEN = c # cs"
    using open_nonempty by (cases INTERNAL_OPEN) auto
  have sw: "startsWith (c # cs @ b @ INTERNAL_CLOSE @ rest) INTERNAL_OPEN"
    by (simp add: op startsWith_def)
  have dr: "drop (length INTERNAL_OPEN) (c # cs @ b @ INTERNAL_CLOSE @ rest) = b @ INTERNAL_CLOSE @ rest"
    by (simp add: op)
  have dr2: "drop (length INTERNAL_OPEN + length b + length INTERNAL_CLOSE) (c # cs @ b @ INTERNAL_CLOSE @ rest) = rest"
    using op by (metis append.assoc append_Cons append_eq_conv_conj length_append)
  have "startsWith (drop (length b) (b @ INTERNAL_CLOSE @ rest)) INTERNAL_CLOSE"
    by (simp add: startsWith_def)
  then have ix: "indexOf (b @ INTERNAL_CLOSE @ rest) INTERNAL_CLOSE = Some (length b)"
    using assms close_nonempty by (intro indexOf_Some) auto
  show ?thesis
    unfolding op append_Cons
    by (subst strip_internal.simps(2)) (simp only: sw dr dr2 if_True ix option.case)
qed

lemma strip_internal_no_match:
  "(\<And>i. startsWith (drop i s) INTERNAL_OPEN \<Longrightarrow>
        indexOf (drop (i + length INTERNAL_OPEN) s) INTERNAL_CLOSE = None) \<Longrightarrow>
   strip_internal s = s"
proof (induction s)
  case Nil
  then show ?case by simp
next
  case (Cons c cs)
  have tl: "\<And>i. startsWith (drop i cs) INTERNAL_OPEN \<Longrightarrow>
        indexOf (drop (i + length INTERNAL_OPEN) cs) INTERNAL_CLOSE = None"
  proof -
    fix i assume "startsWith (drop i cs) INTERNAL_OPEN"
    then have "startsWith (drop (Suc i) (c # cs)) INTERNAL_OPEN" by simp
    from Cons.prems[OF this] show "indexOf (drop (i + length INTERNAL_OPEN) cs) INTERNAL_CLOSE = None"
      by simp
  qed
  have ih: "strip_internal cs = cs" by (rule Cons.IH[OF tl])
  show ?case
  proof (cases "startsWith (c # cs) INTERNAL_OPEN")
    case True
    then have "startsWith (drop 0 (c # cs)) INTERNAL_OPEN" by simp
    from Cons.prems[OF this] have "indexOf (drop (length INTERNAL_OPEN) (c # cs)) INTERNAL_CLOSE = None"
      by simp
    with True ih show ?thesis by simp
  next
    case False
    with ih show ?thesis by simp
  qed
qed

lemma regions_removed_sound: "regions_removed s t \<Longrightarrow> t = strip_internal s"
proof (induction rule: regions_removed.induct)
  case (no_region s)
  have "indexOf (drop (i + length INTERNAL_OPEN) s) INTERNAL_CLOSE = None"
    if sw: "startsWith (drop i s) INTERNAL_OPEN" for i
  proof (rule ccontr)
    assume "indexOf (drop (i + length INTERNAL_OPEN) s) INTERNAL_CLOSE \<noteq> None"
    then obtain j where "startsWith (drop j (drop (i + length INTERNAL_OPEN) s)) INTERNAL_CLOSE"
      using indexOf_None[OF close_nonempty, of "drop (i + length INTERNAL_OPEN) s"] by auto
    then have "occurs_at INTERNAL_CLOSE (j + (i + length INTERNAL_OPEN)) s"
      by (simp add: occurs_at_startsWith[OF close_nonempty])
    moreover have "occurs_at INTERNAL_OPEN i s"
      using sw by (simp add: occurs_at_startsWith[OF open_nonempty])
    ultimately have "j + (i + length INTERNAL_OPEN) < i + length INTERNAL_OPEN"
      using no_region by blast
    then show False by simp
  qed
  then show ?case by (simp add: strip_internal_no_match)
next
  case (first_region a b rest out)
  have 1: "strip_internal (a @ INTERNAL_OPEN @ b @ INTERNAL_CLOSE @ rest)
           = a @ strip_internal (INTERNAL_OPEN @ b @ INTERNAL_CLOSE @ rest)"
    using first_region(1)
    by (intro strip_internal_prefix) (simp add: occurs_at_startsWith[OF open_nonempty])
  have 2: "strip_internal (INTERNAL_OPEN @ b @ INTERNAL_CLOSE @ rest) = strip_internal rest"
    using first_region(2)
    by (intro strip_internal_cut) (simp add: occurs_at_startsWith[OF close_nonempty])
  show ?case using 1 2 first_region.IH by simp
qed

lemma regions_removed_complete: "regions_removed s (strip_internal s)"
proof (induction "length s" arbitrary: s rule: less_induct)
  case less
  show ?case
  proof (cases "\<forall>i j. occurs_at INTERNAL_OPEN i s \<longrightarrow> occurs_at INTERNAL_CLOSE j s \<longrightarrow>
                  j < i + length INTERNAL_OPEN")
    case True
    then have r: "regions_removed s s" by (intro regions_removed.no_region) blast
    from regions_removed_sound[OF r] r show ?thesis by simp
  next
    case False
    then obtain i j where oi: "occurs_at INTERNAL_OPEN i s" and oj: "occurs_at INTERNAL_CLOSE j s"
      and ij: "i + length INTERNAL_OPEN \<le> j" by (auto simp: not_less)
    define i0 where "i0 = (LEAST i. occurs_at INTERNAL_OPEN i s)"
    have i0: "occurs_at INTERNAL_OPEN i0 s" unfolding i0_def using oi by (rule LeastI)
    have i0_least: "\<not> occurs_at INTERNAL_OPEN k s" if "k < i0" for k
      using that not_less_Least unfolding i0_def by blast
    have "i0 \<le> i" unfolding i0_def using oi by (rule Least_le)
    with ij have ex: "i0 + length INTERNAL_OPEN \<le> j \<and> occurs_at INTERNAL_CLOSE j s" using oj by simp
    define j0 where "j0 = (LEAST j. i0 + length INTERNAL_OPEN \<le> j \<and> occurs_at INTERNAL_CLOSE j s)"
    have j0: "i0 + length INTERNAL_OPEN \<le> j0 \<and> occurs_at INTERNAL_CLOSE j0 s"
      unfolding j0_def using ex by (rule LeastI)
    have j0_least: "\<not> (i0 + length INTERNAL_OPEN \<le> k \<and> occurs_at INTERNAL_CLOSE k s)" if "k < j0" for k
      using that not_less_Least unfolding j0_def by blast
    from i0 obtain a v where s1: "s = a @ INTERNAL_OPEN @ v" and la: "length a = i0"
      by (auto simp: occurs_at_def)
    define k where "k = j0 - (i0 + length INTERNAL_OPEN)"
    have j0le: "i0 + length INTERNAL_OPEN \<le> j0" using j0 by simp
    then have "length INTERNAL_OPEN \<le> j0 - i0" "i0 \<le> j0" by simp_all
    then have dj: "drop j0 s = drop k v"
      by (simp add: s1 la k_def)
    have "startsWith (drop j0 s) INTERNAL_CLOSE"
      using j0 by (simp add: occurs_at_startsWith[OF close_nonempty])
    then have "occurs_at INTERNAL_CLOSE k v"
      by (simp add: dj occurs_at_startsWith[OF close_nonempty])
    then obtain b rest where v: "v = b @ INTERNAL_CLOSE @ rest" and lb: "length b = k"
      by (auto simp: occurs_at_def)
    have s2: "s = a @ INTERNAL_OPEN @ b @ INTERNAL_CLOSE @ rest" by (simp add: s1 v)
    have c1: "\<not> occurs_at INTERNAL_OPEN m (a @ INTERNAL_OPEN @ b @ INTERNAL_CLOSE @ rest)"
      if "m < length a" for m
      using i0_least[of m] that la s2 by simp
    have c2: "\<not> occurs_at INTERNAL_CLOSE m (b @ INTERNAL_CLOSE @ rest)" if "m < length b" for m
    proof
      assume "occurs_at INTERNAL_CLOSE m (b @ INTERNAL_CLOSE @ rest)"
      then have "startsWith (drop m v) INTERNAL_CLOSE"
        by (simp add: v occurs_at_startsWith[OF close_nonempty])
      moreover have "drop (i0 + length INTERNAL_OPEN + m) s = drop m v"
        by (simp add: s1 la)
      ultimately have "occurs_at INTERNAL_CLOSE (i0 + length INTERNAL_OPEN + m) s"
        by (simp add: occurs_at_startsWith[OF close_nonempty])
      moreover have "i0 + length INTERNAL_OPEN + m < j0"
        using that lb j0le by (simp add: k_def)
      ultimately show False using j0_least by fastforce
    qed
    have "length rest < length s" by (simp add: s2 open_nonempty)
    then have ih: "regions_removed rest (strip_internal rest)" by (rule less)
    have r: "regions_removed (a @ INTERNAL_OPEN @ b @ INTERNAL_CLOSE @ rest) (a @ strip_internal rest)"
      using c1 c2 ih by (intro regions_removed.first_region) blast+
    from regions_removed_sound[OF r] r show ?thesis by (simp add: s2)
  qed
qed

lemma regions_removed_iff: "regions_removed s t \<longleftrightarrow> t = strip_internal s"
  using regions_removed_sound regions_removed_complete by blast

lemma list_all_dropWhile: "list_all P xs \<Longrightarrow> dropWhile P (xs @ ys) = dropWhile P ys"
  by (induction xs) simp_all

lemma trimmed_trim: "trimmed s (trim s)"
proof -
  let ?a = "dropWhile is_white_space s"
  let ?l = "takeWhile is_white_space s"
  let ?r = "rev (takeWhile is_white_space (rev ?a))"
  have "rev (takeWhile is_white_space (rev ?a) @ dropWhile is_white_space (rev ?a)) = rev (rev ?a)"
    by (simp only: takeWhile_dropWhile_id)
  then have a: "?a = trim s @ ?r"
    by (simp only: rev_append rev_rev_ident trim_def)
  have s: "s = ?l @ trim s @ ?r" using a by (metis takeWhile_dropWhile_id)
  have l: "list_all is_white_space ?l" by (simp add: list_all_iff) (meson set_takeWhileD)
  have r: "list_all is_white_space ?r" by (simp add: list_all_iff) (meson set_takeWhileD)
  have e: "trim s = [] \<or> (\<not> is_white_space (hd (trim s)) \<and> \<not> is_white_space (last (trim s)))"
    using trim_no_outer_space[of s] by blast
  show ?thesis unfolding trimmed_def using s l r e by blast
qed

lemma trimmed_sound: "trimmed s t \<Longrightarrow> t = trim s"
proof -
  assume "trimmed s t"
  then obtain l r where s: "s = l @ t @ r" and l: "list_all is_white_space l"
    and r: "list_all is_white_space r"
    and e: "t = [] \<or> (\<not> is_white_space (hd t) \<and> \<not> is_white_space (last t))"
    unfolding trimmed_def by blast
  have dw: "dropWhile is_white_space xs = []" if "list_all is_white_space xs" for xs
    using that by (induction xs) simp_all
  show ?thesis
  proof (cases "t = []")
    case True
    have "list_all is_white_space s" using s l r True by simp
    then show ?thesis using True by (simp add: trim_def dw)
  next
    case False
    with e have h: "\<not> is_white_space (hd t)" and la: "\<not> is_white_space (last t)" by simp_all
    have 1: "dropWhile is_white_space s = t @ r"
      using False h by (cases t) (simp_all add: s list_all_dropWhile[OF l])
    have rr: "list_all is_white_space (rev r)" using r by (simp add: list_all_iff)
    have 2: "dropWhile is_white_space (rev r @ rev t) = rev t"
      using False la by (cases "rev t") (simp_all add: list_all_dropWhile[OF rr] hd_rev)
    show ?thesis by (simp add: trim_def 1 2)
  qed
qed

lemma trimmed_iff: "trimmed s t \<longleftrightarrow> t = trim s"
  using trimmed_sound trimmed_trim by blast

lemma deliver_no_unlink: "deliver N data = Inr evs \<Longrightarrow> Unlink g \<notin> set evs"
  by (auto simp: deliver_def Let_def split: sum.splits if_splits option.splits json.splits)

lemma process_file_unlink_self:
  "Unlink f \<in> set (snd (process_file parse N g d)) \<Longrightarrow> g = f"
  by (auto simp: process_file_def split: option.splits sum.splits dest: deliver_no_unlink)

lemma process_file_other_entry:
  "g \<noteq> f \<Longrightarrow> map_of (fst (process_file parse N g d)) f = map_of d f"
  by (auto simp: process_file_def map_of_unlink split: option.splits sum.splits)

lemma process_files_others:
  "f \<notin> set fs \<Longrightarrow>
   map_of (fst (process_files parse N fs d)) f = map_of d f \<and>
   Unlink f \<notin> set (snd (process_files parse N fs d))"
proof (induction fs arbitrary: d)
  case Nil
  then show ?case by simp
next
  case (Cons g fs)
  then have gf: "g \<noteq> f" and nf: "f \<notin> set fs" by auto
  obtain d1 e1 where p1: "process_file parse N g d = (d1, e1)"
    by (cases "process_file parse N g d")
  obtain d2 e2 where p2: "process_files parse N fs d1 = (d2, e2)"
    by (cases "process_files parse N fs d1")
  have m1: "map_of d1 f = map_of d f"
    using process_file_other_entry[OF gf, of parse N d] p1 by simp
  have u1: "Unlink f \<notin> set e1"
    using process_file_unlink_self[of f parse N g d] gf p1 by auto
  from Cons.IH[OF nf, of d1] p2 have "map_of d2 f = map_of d1 f" "Unlink f \<notin> set e2" by simp_all
  with m1 u1 show ?case by (simp add: p1 p2)
qed

lemma process_files_append:
  "process_files parse N (xs @ ys) d =
     (fst (process_files parse N ys (fst (process_files parse N xs d))),
      snd (process_files parse N xs d) @ snd (process_files parse N ys (fst (process_files parse N xs d))))"
  by (induction xs arbitrary: d) (simp_all add: split_beta)

text \<open>
  Claim C6.  For a file whose contents parse to an object with \<open>type\<close> equal to
  \<open>message\<close> and a string \<open>text\<close>, there is exactly one text that is the written text
  with every internal region removed and then trimmed.  If it is not empty, the loop
  iteration prints it, behind a line feed, the assistant name and a colon, and prompts
  once; if it is empty, nothing is printed.  In both cases the file is unlinked and is
  gone from the mailbox.  The same holds inside a poll of any mailbox with distinct
  file names in which the file has the \<open>.json\<close> suffix: the poll's effects are those
  of the files listed before it, then this delivery and unlink, then those of the
  files listed after it, and the file is gone afterwards.
\<close>

theorem mailbox_round_trip:
  assumes "map_of d f = Some c" and "parse c = Some (JObject kvs)"
    and "map_of kvs (js ''type'') = Some (JString (js ''message''))"
    and "map_of kvs (js ''text'') = Some (JString raw)"
  shows "\<exists>stripped delivered.
           regions_removed raw stripped \<and> trimmed stripped delivered \<and>
           (\<forall>s' t'. regions_removed raw s' \<and> trimmed s' t' \<longrightarrow> t' = delivered) \<and>
           process_file parse N f d =
             (unlink f d,
              (if delivered = [] then []
               else [ConsoleLog (js [CHR 0x0A] @ N @ js '': '' @ delivered), Prompt]) @ [Unlink f]) \<and>
           map_of (unlink f d) f = None \<and>
           (distinct (map fst d) \<and> endsWith f (js ''.json'') \<longrightarrow>
              (\<exists>d' before after.
                 ipcInterval parse N (Some d) =
                   (Some d',
                    before @
                    (if delivered = [] then []
                     else [ConsoleLog (js [CHR 0x0A] @ N @ js '': '' @ delivered), Prompt]) @
                    [Unlink f] @ after) \<and>
                 map_of d' f = None \<and> Unlink f \<notin> set before \<and> Unlink f \<notin> set after))"
proof -
  let ?t = "trim (strip_internal raw)"
  let ?ev = "(if ?t = [] then [] else [ConsoleLog (js [CHR 0x0A] @ N @ js '': '' @ ?t), Prompt])"
  have dl: "deliver N (JObject kvs) = Inr ?ev"
    using assms(3,4)
    by (cases "raw = []")
       (simp_all add: deliver_def Let_def visible_text_def trim_def assistant_line_def)
  have one: "process_file parse N f d0 = (unlink f d0, ?ev @ [Unlink f])" if "map_of d0 f = Some c" for d0
    using that assms(2) by (simp add: process_file_def dl)
  have uniq: "\<forall>s' t'. regions_removed raw s' \<and> trimmed s' t' \<longrightarrow> t' = ?t"
    by (simp add: regions_removed_iff trimmed_iff)
  have run: "\<exists>d' before after.
                 ipcInterval parse N (Some d) = (Some d', before @ ?ev @ [Unlink f] @ after) \<and>
                 map_of d' f = None \<and> Unlink f \<notin> set before \<and> Unlink f \<notin> set after"
    if dis: "distinct (map fst d)" and ew: "endsWith f (js ''.json'')"
  proof -
    let ?files = "filter (\<lambda>f. endsWith f (js ''.json'')) (map fst d)"
    have "(f, c) \<in> set d" using assms(1) by (rule map_of_SomeD)
    then have "f \<in> set (map fst d)" by force
    then have "f \<in> set ?files" using ew by simp
    then obtain fs1 fs2 where sp: "?files = fs1 @ f # fs2" by (meson split_list)
    have "distinct ?files" using dis by simp
    then have n1: "f \<notin> set fs1" and n2: "f \<notin> set fs2" by (simp_all add: sp)
    let ?d1 = "fst (process_files parse N fs1 d)"
    let ?e1 = "snd (process_files parse N fs1 d)"
    have m1: "map_of ?d1 f = Some c" and u1: "Unlink f \<notin> set ?e1"
      using process_files_others[OF n1, of parse N d] assms(1) by simp_all
    let ?d2 = "unlink f ?d1"
    let ?d3 = "fst (process_files parse N fs2 ?d2)"
    let ?e3 = "snd (process_files parse N fs2 ?d2)"
    have m3: "map_of ?d3 f = None" and u3: "Unlink f \<notin> set ?e3"
      using process_files_others[OF n2, of parse N ?d2] by (simp_all add: map_of_unlink)
    have step: "process_files parse N (f # fs2) ?d1 = (?d3, (?ev @ [Unlink f]) @ ?e3)"
      by (simp only: process_files.simps one[OF m1] prod.case split_beta fst_conv snd_conv)
    have "process_files parse N (fs1 @ f # fs2) d = (?d3, ?e1 @ (?ev @ [Unlink f]) @ ?e3)"
      by (simp only: process_files_append[of parse N fs1 "f # fs2" d] step fst_conv snd_conv)
    then have "process_files parse N ?files d = (?d3, ?e1 @ ?ev @ [Unlink f] @ ?e3)"
      by (simp only: sp append_assoc)
    then have "ipcInterval parse N (Some d) = (Some ?d3, ?e1 @ ?ev @ [Unlink f] @ ?e3)"
      by (simp only: ipcInterval_def Let_def option.case prod.case)
    with m3 u1 u3 show ?thesis by blast
  qed
  have sp: "regions_removed raw (strip_internal raw)" "trimmed (strip_internal raw) ?t"
    by (simp_all add: regions_removed_iff trimmed_iff)
  have gone: "map_of (unlink f d) f = None"
    by (simp add: map_of_unlink)
  show ?thesis
    apply (rule exI[of _ "strip_internal raw"])
    apply (rule exI[of _ ?t])
    apply (intro conjI impI)
    subgoal by (rule sp(1))
    subgoal by (rule sp(2))
    subgoal by (rule uniq)
    subgoal by (rule one[OF assms(1)])
    subgoal by (rule gone)
    subgoal by (rule run) blast+
    done
qed

text \<open>
  Outside the envelope shape: a \<open>text\<close> that is truthy but not a string makes
  \<open>data.text.replace\<close> throw, and the file is skipped like a malformed one.
\<close>

lemma non_string_text_is_skipped:
  assumes "map_of d f = Some c" and "parse c = Some (JObject kvs)"
    and "map_of kvs (js ''type'') = Some (JString (js ''message''))"
    and "map_of kvs (js ''text'') = Some v" and "json_truthy (Some v)" and "\<forall>s. v \<noteq> JString s"
  shows "process_file parse N f d = (d, [])"
  using assms by (cases v) (simp_all add: process_file_def deliver_def)

theorem malformed_file_deleted_counterexample:
  "parse_sample (js ''{oops'') = None \<and>
   ipcInterval parse_sample (js ''Andy'') (Some [(js ''m1.json'', js ''{oops'')])
     = (Some [(js ''m1.json'', js ''{oops'')], [])"
  by (simp add: parse_sample_def ipcInterval_def process_file_def endsWith_def js_def)

theorem malformed_file_is_skipped_witness:
  "map_of [(js ''m1.json'', js ''{oops'')] (js ''m1.json'') = Some (js ''{oops'') \<and>
   parse_sample (js ''{oops'') = None \<and>
   process_file parse_sample (js ''Andy'') (js ''m1.json'') [(js ''m1.json'', js ''{oops'')]
     = ([(js ''m1.json'', js ''{oops'')], []) \<and>
   (\<exists>d'. fst (polls parse_sample (js ''Andy'') 3 (Some [(js ''m1.json'', js ''{oops'')])) = Some d' \<and>
         map_of d' (js ''m1.json'') = Some (js ''{oops'')) \<and>
   Unlink (js ''m1.json'')
     \<notin> set (snd (polls parse_sample (js ''Andy'') 3 (Some [(js ''m1.json'', js ''{oops'')])))"
proof -
  have h1: "map_of [(js ''m1.json'', js ''{oops'')] (js ''m1.json'') = Some (js ''{oops'')"
    by simp
  have h2: "parse_sample (js ''{oops'') = None"
    by (simp add: parse_sample_def js_def)
  show ?thesis
    using h1 h2
      malformed_file_is_skipped [where parse = parse_sample and c = "js ''{oops''" and N = "js ''Andy''"
        and n = 3, OF h1 h2]
    by blast
qed

theorem mailbox_round_trip_witness:
  "let raw = js '' a<internal>x</internal>b '';
       kvs = [(js ''type'', JString (js ''message'')), (js ''text'', JString raw)];
       d = [(js ''a.json'', js ''{oops''), (js ''m1.json'', js ''envelope'')];
       parse = (\<lambda>c. if c = js ''envelope'' then Some (JObject kvs) else None)
   in map_of d (js ''m1.json'') = Some (js ''envelope'') \<and>
      parse (js ''envelope'') = Some (JObject kvs) \<and>
      map_of kvs (js ''type'') = Some (JString (js ''message'')) \<and>
      map_of kvs (js ''text'') = Some (JString raw) \<and>
      distinct (map fst d) \<and> endsWith (js ''m1.json'') (js ''.json'') \<and>
      regions_removed raw (js '' ab '') \<and> trimmed (js '' ab '') (js ''ab'') \<and>
      process_file parse (js ''Andy'') (js ''m1.json'') d =
        ([(js ''a.json'', js ''{oops'')],
         [ConsoleLog (js [CHR 0x0A] @ js ''Andy'' @ js '': '' @ js ''ab''), Prompt,
          Unlink (js ''m1.json'')]) \<and>
      (\<exists>d' before after.
         ipcInterval parse (js ''Andy'') (Some d) =
           (Some d',
            before @ [ConsoleLog (js [CHR 0x0A] @ js ''Andy'' @ js '': '' @ js ''ab''), Prompt,
                      Unlink (js ''m1.json'')] @ after) \<and>
         map_of d' (js ''m1.json'') = None)"
proof -
  let ?raw = "js '' a<internal>x</internal>b ''"
  let ?kvs = "[(js ''type'', JString (js ''message'')), (js ''text'', JString ?raw)]"
  let ?d = "[(js ''a.json'', js ''{oops''), (js ''m1.json'', js ''envelope'')]"
  let ?parse = "\<lambda>c. if c = js ''envelope'' then Some (JObject ?kvs) else None"
  let ?f = "js ''m1.json''"
  have h1: "map_of ?d ?f = Some (js ''envelope'')"
    by (simp add: js_def)
  have h2: "?parse (js ''envelope'') = Some (JObject ?kvs)"
    by simp
  have h3: "map_of ?kvs (js ''type'') = Some (JString (js ''message''))"
    by simp
  have h4: "map_of ?kvs (js ''text'') = Some (JString ?raw)"
    by (simp add: js_def)
  have h5: "distinct (map fst ?d)"
    by (simp add: js_def)
  have h6: "endsWith ?f (js ''.json'')"
    by (simp add: endsWith_def js_def)
  have rr: "regions_removed ?raw (js '' ab '')"
    by (simp add: regions_removed_iff js_def INTERNAL_OPEN_def INTERNAL_CLOSE_def startsWith_def)
  have tt: "trimmed (js '' ab '') (js ''ab'')"
    by (simp add: trimmed_iff trim_def is_white_space_def js_def)
  have ne: "js ''ab'' \<noteq> []"
    by (simp add: js_def)
  have u: "unlink ?f ?d = [(js ''a.json'', js ''{oops'')]"
    by (simp add: unlink_def js_def)
  from mailbox_round_trip [where parse = ?parse and c = "js ''envelope''" and N = "js ''Andy''"
         and f = ?f and d = ?d and kvs = ?kvs and raw = ?raw, OF h1 h2 h3 h4]
  obtain stripped delivered where
      uniq: "\<forall>s' t'. regions_removed ?raw s' \<and> trimmed s' t' \<longrightarrow> t' = delivered"
    and pf: "process_file ?parse (js ''Andy'') ?f ?d =
             (unlink ?f ?d,
              (if delivered = [] then []
               else [ConsoleLog (js [CHR 0x0A] @ js ''Andy'' @ js '': '' @ delivered), Prompt]) @ [Unlink ?f])"
    and run: "distinct (map fst ?d) \<and> endsWith ?f (js ''.json'') \<longrightarrow>
              (\<exists>d' before after.
                 ipcInterval ?parse (js ''Andy'') (Some ?d) =
                   (Some d',
                    before @
                    (if delivered = [] then []
                     else [ConsoleLog (js [CHR 0x0A] @ js ''Andy'' @ js '': '' @ delivered), Prompt]) @
                    [Unlink ?f] @ after) \<and>
                 map_of d' ?f = None \<and> Unlink ?f \<notin> set before \<and> Unlink ?f \<notin> set after)"
    by blast
  from uniq rr tt have dv: "delivered = js ''ab''" by blast
  have pf': "process_file ?parse (js ''Andy'') ?f ?d =
        ([(js ''a.json'', js ''{oops'')],
         [ConsoleLog (js [CHR 0x0A] @ js ''Andy'' @ js '': '' @ js ''ab''), Prompt, Unlink ?f])"
    using pf ne by (simp only: dv u if_False append_Cons append_Nil)
  have run': "\<exists>d' before after.
         ipcInterval ?parse (js ''Andy'') (Some ?d) =
           (Some d',
            before @ [ConsoleLog (js [CHR 0x0A] @ js ''Andy'' @ js '': '' @ js ''ab''), Prompt,
                      Unlink ?f] @ after) \<and>
         map_of d' ?f = None"
    using run h5 h6 ne by (simp only: dv if_False append_Cons append_Nil) blast
  show ?thesis
    unfolding Let_def using h1 h2 h3 h4 h5 h6 rr tt pf' run' by blast
qed

text \<open>
  Claim C7.  When \<open>cleanup\<close> runs while a sandbox is registered (a process that is not
  killed and has a stdin stream, and a container name), then whichever of the calls
  throw, the sentinel is written to stdin, stdin is ended unless the write threw, the
  container stop command is executed, and the process exits: a failure of the first
  step does not keep the second from being attempted, and the first is attempted
  before the second can fail.
\<close>

theorem cancellation_attempts_both_steps:
  assumes "activeProcess st = Some p" and "\<not> killed p" and "has_stdin p"
    and "activeContainerName st = Some name" and "name \<noteq> []"
  shows "cleanup fl st =
           [ClearInterval, StdinWrite CLOSE_SENTINEL] @
           (if write_throws fl then [] else [StdinEnd]) @
           [ExecSync (js ''container stop '' @ name), ProcessExit 0]"
  using assms
  by (simp add: cleanup_def close_stdin_def stop_container_def try_ignore_def truthy_def or_else_def)

lemma persisted_append: "persisted (xs @ ys) db = persisted ys (persisted xs db)"
  by (induction xs db rule: persisted.induct) simp_all

lemma show_result_logs: "e \<in> set (show_result S N out) \<Longrightarrow> \<exists>l. e = ConsoleLog l"
  by (auto simp: show_result_def Let_def split: if_splits)

lemma persisted_show_result: "persisted (show_result S N out) db = db"
  by (simp add: show_result_def Let_def)

lemma update_session_token:
  "newSessionId out = Some tok \<Longrightarrow> tok \<noteq> [] \<Longrightarrow>
   update_session f out st = (st\<lparr>sessions := (sessions st)(f \<mapsto> tok)\<rparr>, [SetSession f tok])"
  by (simp add: update_session_def truthy_def or_else_def)

lemma update_session_carried:
  "update_session f out st =
     (case carried_token out of
        None \<Rightarrow> (st, [])
      | Some tok \<Rightarrow> (st\<lparr>sessions := (sessions st)(f \<mapsto> tok)\<rparr>, [SetSession f tok]))"
  by (auto simp: update_session_def carried_token_def truthy_def or_else_def split: option.splits)

lemma on_output_effect:
  "sessions (fst (on_output S N f out st)) =
     (case carried_token out of None \<Rightarrow> sessions st | Some tok \<Rightarrow> (sessions st)(f \<mapsto> tok))
   \<and> persisted (snd (on_output S N f out st)) db =
     (case carried_token out of None \<Rightarrow> db | Some tok \<Rightarrow> db(f \<mapsto> tok))"
  by (simp add: on_output_def update_session_carried persisted_append persisted_show_result
        setSession_def split: option.splits)

lemma on_completed_effect:
  "sessions (fst (on_completed f out st)) =
     (case carried_token out of None \<Rightarrow> sessions st | Some tok \<Rightarrow> (sessions st)(f \<mapsto> tok))
   \<and> persisted (snd (on_completed f out st)) db =
     (case carried_token out of None \<Rightarrow> db | Some tok \<Rightarrow> db(f \<mapsto> tok))"
  by (simp add: on_completed_def update_session_carried persisted_append
        setSession_def split: option.splits)

lemma on_outputs_effect:
  "sessions (fst (on_outputs S N f outs st)) f =
     (case last_token outs of None \<Rightarrow> sessions st f | Some tok \<Rightarrow> Some tok)
   \<and> persisted (snd (on_outputs S N f outs st)) db f =
     (case last_token outs of None \<Rightarrow> db f | Some tok \<Rightarrow> Some tok)"
proof (induction outs arbitrary: st db)
  case Nil
  then show ?case by simp
next
  case (Cons out outs)
  obtain st1 e1 where o1: "on_output S N f out st = (st1, e1)"
    by (cases "on_output S N f out st")
  obtain st2 e2 where o2: "on_outputs S N f outs st1 = (st2, e2)"
    by (cases "on_outputs S N f outs st1")
  from on_output_effect[of S N f out st db] o1
  have s1: "sessions st1 = (case carried_token out of None \<Rightarrow> sessions st | Some tok \<Rightarrow> (sessions st)(f \<mapsto> tok))"
    and p1: "persisted e1 db = (case carried_token out of None \<Rightarrow> db | Some tok \<Rightarrow> db(f \<mapsto> tok))"
    by simp_all
  from Cons.IH[of st1 "persisted e1 db"] o2
  have s2: "sessions st2 f = (case last_token outs of None \<Rightarrow> sessions st1 f | Some tok \<Rightarrow> Some tok)"
    and p2: "persisted e2 (persisted e1 db) f = (case last_token outs of None \<Rightarrow> persisted e1 db f | Some tok \<Rightarrow> Some tok)"
    by simp_all
  show ?case
    using s2 p2 by (auto simp add: o1 o2 persisted_append s1 p1 split: option.splits)
qed

lemma last_token_snoc:
  "last_token (outs @ [out]) = (case carried_token out of Some t \<Rightarrow> Some t | None \<Rightarrow> last_token outs)"
  by (induction outs) (auto split: option.splits)

lemma run_turn_effect:
  "sessions (fst (run_turn S N f outs (Inr final) st)) f =
     (case last_token (outs @ [final]) of None \<Rightarrow> sessions st f | Some tok \<Rightarrow> Some tok)
   \<and> persisted (snd (run_turn S N f outs (Inr final) st)) db f =
     (case last_token (outs @ [final]) of None \<Rightarrow> db f | Some tok \<Rightarrow> Some tok)"
proof -
  obtain st1 e1 where o1: "on_outputs S N f outs st = (st1, e1)"
    by (cases "on_outputs S N f outs st")
  obtain st2 e2 where o2: "on_completed f final st1 = (st2, e2)"
    by (cases "on_completed f final st1")
  from on_outputs_effect[of S N f outs st db] o1
  have s1: "sessions st1 f = (case last_token outs of None \<Rightarrow> sessions st f | Some tok \<Rightarrow> Some tok)"
    and p1: "persisted e1 db f = (case last_token outs of None \<Rightarrow> db f | Some tok \<Rightarrow> Some tok)"
    by simp_all
  from on_completed_effect[of f final st1 "persisted e1 db"] o2
  have s2: "sessions st2 = (case carried_token final of None \<Rightarrow> sessions st1 | Some tok \<Rightarrow> (sessions st1)(f \<mapsto> tok))"
    and p2: "persisted e2 (persisted e1 db) = (case carried_token final of None \<Rightarrow> persisted e1 db | Some tok \<Rightarrow> (persisted e1 db)(f \<mapsto> tok))"
    by simp_all
  show ?thesis
    using s1 p1 p2 by (auto simp add: run_turn_def o1 o2 persisted_append last_token_snoc s2 split: option.splits)
qed

text \<open>
  Claim C5.  When an output carries a session token (a non-empty \<open>newSessionId\<close>), the
  streaming callback calls \<open>setSession\<close> first and prints the result text, if any, only
  after it; the statements after the run do the same for the completed output; both
  store the token under the folder in \<open>sessions\<close>.  Over a whole turn the token kept
  for the folder, in \<open>sessions\<close> and in the store behind \<open>setSession\<close>, is the last one
  that any output carried: each token overwrites the one before it.
\<close>

theorem session_token_persisted_first:
  "(newSessionId out = Some tok \<and> tok \<noteq> [] \<longrightarrow>
      snd (on_output S N f out st) = SetSession f tok # show_result S N out \<and>
      (\<forall>e \<in> set (show_result S N out). \<exists>l. e = ConsoleLog l) \<and>
      sessions (fst (on_output S N f out st)) f = Some tok \<and>
      hd (snd (on_completed f out st)) = SetSession f tok \<and>
      sessions (fst (on_completed f out st)) f = Some tok) \<and>
   sessions (fst (run_turn S N f outs (Inr final) st)) f =
     (case last_token (outs @ [final]) of None \<Rightarrow> sessions st f | Some t \<Rightarrow> Some t) \<and>
   persisted (snd (run_turn S N f outs (Inr final) st)) db f =
     (case last_token (outs @ [final]) of None \<Rightarrow> db f | Some t \<Rightarrow> Some t)"
  using run_turn_effect[of S N f outs final st db] show_result_logs[of _ S N out]
  by (auto simp: on_output_def on_completed_def update_session_token)

theorem cancellation_attempts_both_steps_witness:
  "let p = \<lparr>killed = False, has_stdin = True\<rparr>;
       st = on_launch p (js ''nanoclaw-main-1700000000000'')
              \<lparr>activeProcess = None, activeContainerName = None, sessions = Map.empty\<rparr>;
       fl = \<lparr>write_throws = True, end_throws = False, stop_throws = True\<rparr>
   in activeProcess st = Some p \<and> \<not> killed p \<and> has_stdin p \<and>
      activeContainerName st = Some (js ''nanoclaw-main-1700000000000'') \<and>
      cleanup fl st =
        [ClearInterval, StdinWrite CLOSE_SENTINEL,
         ExecSync (js ''container stop '' @ js ''nanoclaw-main-1700000000000''), ProcessExit 0]"
proof -
  let ?p = "\<lparr>killed = False, has_stdin = True\<rparr>"
  let ?n = "js ''nanoclaw-main-1700000000000''"
  let ?st = "on_launch ?p ?n \<lparr>activeProcess = None, activeContainerName = None, sessions = Map.empty\<rparr>"
  let ?fl = "\<lparr>write_throws = True, end_throws = False, stop_throws = True\<rparr>"
  have h1: "activeProcess ?st = Some ?p" by (simp add: on_launch_def)
  have h2: "\<not> killed ?p" by simp
  have h3: "has_stdin ?p" by simp
  have h4: "activeContainerName ?st = Some ?n" by (simp add: on_launch_def)
  have h5: "?n \<noteq> []" by (simp add: js_def)
  show ?thesis
    using cancellation_attempts_both_steps [OF h1 h2 h3 h4 h5, of ?fl] h1 h4
    unfolding Let_def by simp
qed

theorem session_token_persisted_first_witness:
  "let o1 = \<lparr>status = js ''success'', result = Some (JString (js ''hi'')),
             newSessionId = Some (js ''s1''), error = None\<rparr>;
       o2 = \<lparr>status = js ''success'', result = None,
             newSessionId = Some (js ''s2''), error = None\<rparr>;
       st = \<lparr>activeProcess = None, activeContainerName = None, sessions = Map.empty\<rparr>
   in newSessionId o1 = Some (js ''s1'') \<and> js ''s1'' \<noteq> [] \<and>
      snd (on_output (\<lambda>v. []) (js ''Andy'') (js ''main'') o1 st)
        = SetSession (js ''main'') (js ''s1'') # show_result (\<lambda>v. []) (js ''Andy'') o1 \<and>
      show_result (\<lambda>v. []) (js ''Andy'') o1 = [ConsoleLog (assistant_line (js ''Andy'') (js ''hi''))] \<and>
      persisted (snd (run_turn (\<lambda>v. []) (js ''Andy'') (js ''main'') [o1] (Inr o2) st)) Map.empty
        (js ''main'') = Some (js ''s2'')"
proof -
  let ?o1 = "\<lparr>status = js ''success'', result = Some (JString (js ''hi'')),
             newSessionId = Some (js ''s1''), error = None\<rparr>"
  let ?o2 = "\<lparr>status = js ''success'', result = None,
             newSessionId = Some (js ''s2''), error = None\<rparr>"
  let ?st = "\<lparr>activeProcess = None, activeContainerName = None, sessions = Map.empty\<rparr>"
  have h1: "newSessionId ?o1 = Some (js ''s1'')" by simp
  have h2: "js ''s1'' \<noteq> []" by (simp add: js_def)
  have sr: "show_result (\<lambda>v. []) (js ''Andy'') ?o1 = [ConsoleLog (assistant_line (js ''Andy'') (js ''hi''))]"
    by (simp add: show_result_def visible_text_def trim_def is_white_space_def js_def
          INTERNAL_OPEN_def startsWith_def)
  have lt: "last_token ([?o1] @ [?o2]) = Some (js ''s2'')"
    by (simp add: carried_token_def truthy_def js_def)
  show ?thesis
    using session_token_persisted_first [of ?o1 "js ''s1''" "\<lambda>v. []" "js ''Andy''" "js ''main''" ?st
            "[?o1]" ?o2 Map.empty] h1 h2 sr lt
    unfolding Let_def by simp
qed

section \<open>Properties of the watchdog\<close>

lemma wrap64_id: "- (2 ^ 63) \<le> x \<Longrightarrow> x < 2 ^ 63 \<Longrightarrow> wrap64 x = x"
  by (simp add: wrap64_def mod_pos_pos_trivial)

lemma div1000_bounds: "0 \<le> (a::int) \<Longrightarrow> 0 \<le> a div 1000 \<and> a div 1000 \<le> a"
  by (simp add: pos_imp_zdiv_nonneg_iff div_by_1 zdiv_mono2[of a 1 1000, simplified])

lemma div1000_upper: "(a::int) \<le> b + k * 1000 \<Longrightarrow> a div 1000 \<le> b div 1000 + k"
  using zdiv_mono1[of a "b + k * 1000" 1000] by simp

lemma div1000_lower: "(b::int) + k * 1000 \<le> a \<Longrightarrow> b div 1000 + k \<le> a div 1000"
  using zdiv_mono1[of "b + k * 1000" a 1000] by simp

lemma digit_value_range: "is_digit c \<Longrightarrow> 0 \<le> digit_value c \<and> digit_value c \<le> 9"
  by (auto simp: is_digit_def digit_value_def)

lemma number_in_base_snoc:
  "number_in_base b (ds @ [d]) = number_in_base b ds * b + digit_value d"
  by (simp add: number_in_base_def)

lemma decimal_range:
  "list_all is_digit ds \<Longrightarrow> 0 \<le> number_in_base 10 ds \<and> number_in_base 10 ds < 10 ^ length ds"
proof (induction ds rule: rev_induct)
  case Nil
  then show ?case by (simp add: number_in_base_def)
next
  case (snoc d ds)
  then have ih: "0 \<le> number_in_base 10 ds" "number_in_base 10 ds < 10 ^ length ds"
    and d: "0 \<le> digit_value d" "digit_value d \<le> 9"
    using digit_value_range[of d] by simp_all
  from ih(2) have "number_in_base 10 ds + 1 \<le> 10 ^ length ds" by simp
  then have "(number_in_base 10 ds + 1) * 10 \<le> 10 ^ length ds * 10" by (rule mult_right_mono) simp
  with ih d show ?case
    by (simp add: number_in_base_snoc algebra_simps)
qed

lemma embedded_epoch_digits:
  "embedded_epoch name = Some ds \<Longrightarrow> length ds = 13 \<and> list_all is_digit ds"
  by (auto simp: embedded_epoch_def Let_def split: if_splits)

lemma sh_number_decimal:
  assumes "embedded_epoch name = Some ds" and "hd ds \<noteq> CHR ''0''"
  shows "sh_number ds = Some (number_in_base 10 ds)"
    and "0 \<le> number_in_base 10 ds" and "number_in_base 10 ds < 10 ^ 13"
proof -
  from embedded_epoch_digits[OF assms(1)] have l: "length ds = 13" and d: "list_all is_digit ds"
    by simp_all
  from decimal_range[OF d] l show r: "0 \<le> number_in_base 10 ds" "number_in_base 10 ds < 10 ^ 13"
    by simp_all
  then have "wrap64 (number_in_base 10 ds) = number_in_base 10 ds"
    by (intro wrap64_id) simp_all
  with assms(2) show "sh_number ds = Some (number_in_base 10 ds)"
    by (simp add: sh_number_def)
qed

lemma sh_div_nonneg: "0 \<le> a \<Longrightarrow> a < 2 ^ 63 \<Longrightarrow> sh_div a 1000 = a div 1000"
proof -
  assume a: "0 \<le> a" "a < 2 ^ 63"
  then have "0 \<le> a div 1000" "a div 1000 \<le> a" using div1000_bounds[of a] by simp_all
  with a have w: "wrap64 (a div 1000) = a div 1000" by (intro wrap64_id) simp_all
  show ?thesis
  proof (cases "a = 0")
    case True
    then show ?thesis by (simp add: sh_div_def wrap64_def)
  next
    case False
    with a have "sgn a = 1" by simp
    with a w show ?thesis by (simp add: sh_div_def)
  qed
qed

lemma sh_div_neg: "a < 0 \<Longrightarrow> - (2 ^ 63) \<le> a \<Longrightarrow> sh_div a 1000 \<le> 0"
proof -
  assume a: "a < 0" "- (2 ^ 63) \<le> a"
  then have r: "0 \<le> \<bar>a\<bar> div 1000" "\<bar>a\<bar> div 1000 \<le> \<bar>a\<bar>"
    using div1000_bounds[of "\<bar>a\<bar>"] by simp_all
  with a have "wrap64 (- (\<bar>a\<bar> div 1000)) = - (\<bar>a\<bar> div 1000)" by (intro wrap64_id) simp_all
  with a r show ?thesis by (simp add: sh_div_def)
qed

lemma examine_decimal:
  assumes e: "embedded_epoch name = Some ds" and nz: "hd ds \<noteq> CHR ''0''"
    and n: "0 \<le> now" "now < 2 ^ 62"
  shows "examine now name =
           (if now - number_in_base 10 ds div 1000 > 3900 then Stopped else Kept)"
proof -
  note d = sh_number_decimal[OF e nz]
  have q: "sh_div (number_in_base 10 ds) 1000 = number_in_base 10 ds div 1000"
    using d by (intro sh_div_nonneg) simp_all
  have qr: "0 \<le> number_in_base 10 ds div 1000" "number_in_base 10 ds div 1000 < 10 ^ 13"
    using d div1000_bounds[of "number_in_base 10 ds"] by simp_all
  have "sh_sub now (number_in_base 10 ds div 1000) = now - number_in_base 10 ds div 1000"
    unfolding sh_sub_def using n qr by (intro wrap64_id) simp_all
  then show ?thesis
    by (simp add: examine_def e d(1) q Let_def max_age_seconds_def)
qed

lemma reap_stops_only_stopped:
  "ContainerStop name \<in> set (reap now names) \<Longrightarrow> examine now name = Stopped"
  by (induction names) (auto split: verdict.splits)

lemma reap_stops_iff:
  "\<forall>n \<in> set names. examine now n \<noteq> ArithmeticError \<Longrightarrow>
   ContainerStop name \<in> set (reap now names) \<longleftrightarrow> name \<in> set names \<and> examine now name = Stopped"
  by (induction names) (auto split: verdict.splits)

lemma reap_no_pkill: "Pkill \<notin> set (reap now names)"
  by (induction names) (auto split: verdict.splits)

lemma reap_prefix:
  "\<forall>n \<in> set pre. examine now n \<noteq> ArithmeticError \<Longrightarrow>
   reap now (pre @ rest) = reap now pre @ reap now rest"
  by (induction pre) (auto split: verdict.splits)

lemma running_names_mem:
  "n \<in> set (running_names listing) \<longleftrightarrow>
     (\<exists>c \<in> set listing. container_id c = n \<and> container_status c = ''running'' \<and>
                        startsWith n ''nanoclaw-'')"
  by (auto simp: running_names_def)

lemma reap_names: "ContainerStop name \<in> set (reap now names) \<Longrightarrow> name \<in> set names"
  by (induction names) (auto split: verdict.splits)

lemma reap_reached:
  assumes "\<forall>n \<in> set pre. examine now n \<noteq> ArithmeticError"
  shows "ContainerStop name \<in> set (reap now (pre @ name # post)) \<longleftrightarrow> examine now name = Stopped"
proof
  assume "ContainerStop name \<in> set (reap now (pre @ name # post))"
  then show "examine now name = Stopped" by (rule reap_stops_only_stopped)
next
  assume "examine now name = Stopped"
  then have "ContainerStop name \<in> set (reap now (name # post))" by simp
  then show "ContainerStop name \<in> set (reap now (pre @ name # post))"
    by (simp add: reap_prefix[OF assms])
qed

text \<open>
  Claim C3, as the code has it.  A name without 13 digits at its end is skipped by the
  reaper whatever the time is, and no stop command is ever issued for it; a stop
  command is only ever issued for a running instance whose name starts with
  \<open>nanoclaw-\<close>.  For a name that ends in a 13-digit epoch not starting with 0, examined
  at the epoch second \<open>now_ms div 1000\<close>, the age is counted in whole seconds: the
  verdict is to stop exactly when \<open>now_ms div 1000 - epoch div 1000\<close> exceeds 3900.  At
  an age of at most 3900000 ms, the threshold included, the instance is kept and no stop
  command is issued for it.  When the loop reaches the name (no name listed before it
  raised an arithmetic error), the stop command is issued exactly when the whole-second
  age exceeds 3900, and so always at an age of at least 3901000 ms.  In between, one
  millisecond over the threshold for instance, the outcome depends on where the second
  boundaries fall.
\<close>

theorem reaper_boundary:
  "(embedded_epoch name = None \<longrightarrow>
      examine now name = Skipped \<and> ContainerStop name \<notin> set (cleanup_containers now listing)) \<and>
   (ContainerStop name \<in> set (cleanup_containers now listing) \<longrightarrow>
      (\<exists>c \<in> set listing. container_id c = name \<and> container_status c = ''running'' \<and>
                         startsWith name ''nanoclaw-'')) \<and>
   (embedded_epoch name = Some ds \<and> hd ds \<noteq> CHR ''0'' \<and> 0 \<le> now_ms \<and> now_ms < 2 ^ 62 \<longrightarrow>
      (examine (now_ms div 1000) name = Stopped
         \<longleftrightarrow> now_ms div 1000 - number_in_base 10 ds div 1000 > max_age_seconds) \<and>
      (examine (now_ms div 1000) name = Kept
         \<longleftrightarrow> now_ms div 1000 - number_in_base 10 ds div 1000 \<le> max_age_seconds) \<and>
      (now_ms - number_in_base 10 ds \<le> max_age_seconds * 1000
         \<longrightarrow> examine (now_ms div 1000) name = Kept \<and>
             ContainerStop name \<notin> set (cleanup_containers (now_ms div 1000) listing)) \<and>
      (now_ms - number_in_base 10 ds \<ge> (max_age_seconds + 1) * 1000
         \<longrightarrow> examine (now_ms div 1000) name = Stopped) \<and>
      (running_names listing = before @ name # after \<and>
       (\<forall>n \<in> set before. examine (now_ms div 1000) n \<noteq> ArithmeticError) \<longrightarrow>
         (ContainerStop name \<in> set (cleanup_containers (now_ms div 1000) listing)
            \<longleftrightarrow> now_ms div 1000 - number_in_base 10 ds div 1000 > max_age_seconds) \<and>
         (now_ms - number_in_base 10 ds \<ge> (max_age_seconds + 1) * 1000
            \<longrightarrow> ContainerStop name \<in> set (cleanup_containers (now_ms div 1000) listing))))"
proof (intro conjI impI)
  assume none: "embedded_epoch name = None"
  then show sk: "examine now name = Skipped" by (simp add: examine_def)
  show "ContainerStop name \<notin> set (cleanup_containers now listing)"
    using reap_stops_only_stopped[of name now "running_names listing"] sk
    by (auto simp: cleanup_containers_def)
next
  assume "ContainerStop name \<in> set (cleanup_containers now listing)"
  then have "name \<in> set (running_names listing)"
    unfolding cleanup_containers_def by (rule reap_names)
  then show "\<exists>c \<in> set listing. container_id c = name \<and> container_status c = ''running'' \<and>
                         startsWith name ''nanoclaw-''"
    by (simp add: running_names_mem)
next
  assume a: "embedded_epoch name = Some ds \<and> hd ds \<noteq> CHR ''0'' \<and> 0 \<le> now_ms \<and> now_ms < 2 ^ 62"
  then have n: "0 \<le> now_ms div 1000" "now_ms div 1000 < 2 ^ 62"
    using div1000_bounds[of now_ms] by simp_all
  from a have ex: "examine (now_ms div 1000) name =
           (if now_ms div 1000 - number_in_base 10 ds div 1000 > 3900 then Stopped else Kept)"
    using examine_decimal[OF _ _ n, of name ds] by simp
  show st: "examine (now_ms div 1000) name = Stopped
         \<longleftrightarrow> now_ms div 1000 - number_in_base 10 ds div 1000 > max_age_seconds"
    by (simp add: ex max_age_seconds_def)
  show "examine (now_ms div 1000) name = Kept
         \<longleftrightarrow> now_ms div 1000 - number_in_base 10 ds div 1000 \<le> max_age_seconds"
    by (simp add: ex max_age_seconds_def)
  { assume "now_ms - number_in_base 10 ds \<le> max_age_seconds * 1000"
    then have "now_ms div 1000 - number_in_base 10 ds div 1000 \<le> 3900"
      unfolding max_age_seconds_def
      using div1000_upper[of now_ms "number_in_base 10 ds" 3900] by simp
    then show k: "examine (now_ms div 1000) name = Kept" by (simp add: ex)
    show "ContainerStop name \<notin> set (cleanup_containers (now_ms div 1000) listing)"
      using reap_stops_only_stopped[of name "now_ms div 1000" "running_names listing"] k
      by (auto simp: cleanup_containers_def) }
  { assume "now_ms - number_in_base 10 ds \<ge> (max_age_seconds + 1) * 1000"
    then have "now_ms div 1000 - number_in_base 10 ds div 1000 > 3900"
      unfolding max_age_seconds_def
      using div1000_lower[of "number_in_base 10 ds" 3901 now_ms] by simp
    then show "examine (now_ms div 1000) name = Stopped" by (simp add: ex) }
  note over = this
  { assume r: "running_names listing = before @ name # after \<and>
       (\<forall>n \<in> set before. examine (now_ms div 1000) n \<noteq> ArithmeticError)"
    then have reach: "ContainerStop name \<in> set (cleanup_containers (now_ms div 1000) listing)
                  \<longleftrightarrow> examine (now_ms div 1000) name = Stopped"
      using reap_reached[of before "now_ms div 1000" name after]
      by (simp add: cleanup_containers_def)
    show "ContainerStop name \<in> set (cleanup_containers (now_ms div 1000) listing)
            \<longleftrightarrow> now_ms div 1000 - number_in_base 10 ds div 1000 > max_age_seconds"
      using reach st by simp
    assume "now_ms - number_in_base 10 ds \<ge> (max_age_seconds + 1) * 1000"
    then show "ContainerStop name \<in> set (cleanup_containers (now_ms div 1000) listing)"
      using over reach by simp }
qed

lemma check_heartbeat_beat:
  assumes n: "0 \<le> now" "now < 2 ^ 50" and b: "0 \<le> last_beat" "last_beat < 2 ^ 62"
  shows "check_heartbeat now (Beat last_beat) =
           (if now * 1000 - last_beat \<ge> 301000
            then [LogStale ((now * 1000 - last_beat) div 1000), Pkill, LogKilled] else [])"
proof -
  have m0: "now * 1000 < 2 ^ 50 * 1000" using n by simp
  have m: "0 \<le> now * 1000" "now * 1000 < 2 ^ 62" using n m0 by simp_all
  then have mul: "sh_mul now 1000 = now * 1000"
    unfolding sh_mul_def by (intro wrap64_id) simp_all
  have sub: "sh_sub (now * 1000) last_beat = now * 1000 - last_beat"
    unfolding sh_sub_def using m b by (intro wrap64_id) simp_all
  let ?a = "now * 1000 - last_beat"
  have range: "- (2 ^ 63) \<le> ?a" "?a < 2 ^ 63" using m b by simp_all
  show ?thesis
  proof (cases "0 \<le> ?a")
    case True
    then have d: "sh_div ?a 1000 = ?a div 1000" using range by (intro sh_div_nonneg) simp_all
    have "(?a div 1000 > 300) = (?a \<ge> 301000)"
      using div1000_lower[of 0 301 ?a] div1000_upper[of ?a 999 300] by auto
    then show ?thesis
      by (simp add: check_heartbeat_def mul sub d Let_def MAX_STALE_SECONDS_def)
  next
    case False
    then have "sh_div ?a 1000 \<le> 0" using range by (intro sh_div_neg) simp_all
    with False show ?thesis
      by (simp add: check_heartbeat_def mul sub Let_def MAX_STALE_SECONDS_def)
  qed
qed

lemma second_clock: "0 \<le> (a::int) \<Longrightarrow> a div 1000 * 1000 \<le> a \<and> a - 999 \<le> a div 1000 * 1000"
proof -
  have "a = a div 1000 * 1000 + a mod 1000" by simp
  moreover have "0 \<le> a mod 1000" "a mod 1000 < 1000" by simp_all
  ultimately show ?thesis by linarith
qed

text \<open>
  Claim C4, as the code has it.  With no heartbeat file the watchdog logs one line and
  kills nothing.  With a heartbeat, the script reads the clock in whole seconds
  (\<open>now_ms div 1000\<close> at the clock time \<open>now_ms\<close>) and cuts the difference to the
  heartbeat to whole seconds before the comparison: the host is killed exactly when
  \<open>(now_ms div 1000) * 1000 - last_beat\<close> is at least 301000.  So a heartbeat age
  \<open>now_ms - last_beat\<close> below 301000 ms, the threshold of 300000 ms included, never
  kills, and an age of at least 301999 ms always kills; in between the outcome depends
  on where the clock stands within its second.
\<close>

theorem watchdog_boundary:
  "check_heartbeat now NoFile = [LogNoHeartbeat] \<and>
   Pkill \<notin> set (watchdog now1 now listing NoFile) \<and>
   (0 \<le> now_ms \<and> now_ms < 2 ^ 59 \<and> 0 \<le> last_beat \<and> last_beat < 2 ^ 62 \<longrightarrow>
      (Pkill \<in> set (watchdog now1 (now_ms div 1000) listing (Beat last_beat))
         \<longleftrightarrow> now_ms div 1000 * 1000 - last_beat \<ge> (MAX_STALE_SECONDS + 1) * 1000) \<and>
      (now_ms - last_beat < (MAX_STALE_SECONDS + 1) * 1000
         \<longrightarrow> check_heartbeat (now_ms div 1000) (Beat last_beat) = [] \<and>
             Pkill \<notin> set (watchdog now1 (now_ms div 1000) listing (Beat last_beat))) \<and>
      (now_ms - last_beat \<ge> (MAX_STALE_SECONDS + 2) * 1000 - 1
         \<longrightarrow> Pkill \<in> set (watchdog now1 (now_ms div 1000) listing (Beat last_beat))))"
proof (intro conjI impI)
  show "check_heartbeat now NoFile = [LogNoHeartbeat]"
    by (simp add: check_heartbeat_def)
  show "Pkill \<notin> set (watchdog now1 now listing NoFile)"
    using reap_no_pkill[of now1 "running_names listing"]
    by (simp add: watchdog_def cleanup_containers_def check_heartbeat_def)
next
  assume a: "0 \<le> now_ms \<and> now_ms < 2 ^ 59 \<and> 0 \<le> last_beat \<and> last_beat < 2 ^ 62"
  then have n: "0 \<le> now_ms div 1000" "now_ms div 1000 < 2 ^ 50"
    using div1000_bounds[of now_ms] zdiv_mono1[of now_ms "2 ^ 59" 1000] by simp_all
  have hb: "check_heartbeat (now_ms div 1000) (Beat last_beat) =
           (if now_ms div 1000 * 1000 - last_beat \<ge> 301000
            then [LogStale ((now_ms div 1000 * 1000 - last_beat) div 1000), Pkill, LogKilled] else [])"
    using a n by (intro check_heartbeat_beat) simp_all
  have wd: "Pkill \<in> set (watchdog now1 (now_ms div 1000) listing (Beat last_beat))
         \<longleftrightarrow> now_ms div 1000 * 1000 - last_beat \<ge> 301000"
    using reap_no_pkill[of now1 "running_names listing"]
    by (simp add: watchdog_def cleanup_containers_def hb)
  show "Pkill \<in> set (watchdog now1 (now_ms div 1000) listing (Beat last_beat))
         \<longleftrightarrow> now_ms div 1000 * 1000 - last_beat \<ge> (MAX_STALE_SECONDS + 1) * 1000"
    using wd by (simp add: MAX_STALE_SECONDS_def)
  have sc: "now_ms div 1000 * 1000 \<le> now_ms" "now_ms - 999 \<le> now_ms div 1000 * 1000"
    using second_clock[of now_ms] a by simp_all
  { assume "now_ms - last_beat < (MAX_STALE_SECONDS + 1) * 1000"
    then have lt: "\<not> now_ms div 1000 * 1000 - last_beat \<ge> 301000"
      using sc by (simp add: MAX_STALE_SECONDS_def)
    then show "check_heartbeat (now_ms div 1000) (Beat last_beat) = []"
      by (simp add: hb)
    show "Pkill \<notin> set (watchdog now1 (now_ms div 1000) listing (Beat last_beat))"
      using wd lt by simp }
  { assume "now_ms - last_beat \<ge> (MAX_STALE_SECONDS + 2) * 1000 - 1"
    then have "now_ms div 1000 * 1000 - last_beat \<ge> 301000"
      using sc by (simp add: MAX_STALE_SECONDS_def)
    then show "Pkill \<in> set (watchdog now1 (now_ms div 1000) listing (Beat last_beat))"
      using wd by simp }
qed

theorem reaper_one_millisecond_counterexample:
  "embedded_epoch ''nanoclaw-main-1700000000000'' = Some ''1700000000000'' \<and>
   number_in_base 10 ''1700000000000'' = 1700000000000 \<and>
   (1700003900001::int) - 1700000000000 = max_age_seconds * 1000 + 1 \<and>
   examine (1700003900001 div 1000) ''nanoclaw-main-1700000000000'' = Kept"
  by (simp add: examine_def embedded_epoch_def is_digit_def sh_number_def number_in_base_def
        digit_value_def sh_div_def sh_sub_def wrap64_def max_age_seconds_def)

theorem watchdog_any_amount_counterexample:
  "(1700000300::int) * 1000 - 1699999999500 = MAX_STALE_SECONDS * 1000 + 500 \<and>
   check_heartbeat 1700000300 (Beat 1699999999500) = []"
  by (simp add: check_heartbeat_def sh_mul_def sh_div_def sh_sub_def wrap64_def MAX_STALE_SECONDS_def)

theorem reaper_boundary_witness:
  "let name = ''nanoclaw-main-1700000000000'';
       listing = [\<lparr>container_id = name, container_status = ''running''\<rparr>]
   in embedded_epoch ''nanoclaw-main-170000000'' = None \<and>
      examine 1800000000 ''nanoclaw-main-170000000'' = Skipped \<and>
      embedded_epoch name = Some ''1700000000000'' \<and>
      hd ''1700000000000'' \<noteq> CHR ''0'' \<and>
      number_in_base 10 ''1700000000000'' = 1700000000000 \<and>
      running_names listing = [] @ name # [] \<and>
      examine (1700003900000 div 1000) name = Kept \<and>
      ContainerStop name \<notin> set (cleanup_containers (1700003900000 div 1000) listing) \<and>
      examine (1700003901000 div 1000) name = Stopped \<and>
      ContainerStop name \<in> set (cleanup_containers (1700003901000 div 1000) listing)"
proof -
  let ?name = "''nanoclaw-main-1700000000000''"
  let ?listing = "[\<lparr>container_id = ?name, container_status = ''running''\<rparr>]"
  have e0: "embedded_epoch ''nanoclaw-main-170000000'' = None"
    by (simp add: embedded_epoch_def is_digit_def)
  have e1: "embedded_epoch ?name = Some ''1700000000000''"
    by (simp add: embedded_epoch_def is_digit_def)
  have h: "hd ''1700000000000'' \<noteq> CHR ''0''"
    by simp
  have v: "number_in_base 10 ''1700000000000'' = 1700000000000"
    by (simp add: number_in_base_def digit_value_def)
  have rn: "running_names ?listing = [] @ ?name # []"
    by (simp add: running_names_def startsWith_def)
  have pre: "\<forall>n \<in> set []. examine (m div 1000) n \<noteq> ArithmeticError" for m :: int
    by simp
  have r1: "(0::int) \<le> 1700003900000 \<and> (1700003900000::int) < 2 ^ 62"
    by simp
  have r2: "(0::int) \<le> 1700003901000 \<and> (1700003901000::int) < 2 ^ 62"
    by simp
  note t1 = reaper_boundary [where name = ?name and ds = "''1700000000000''"
        and now_ms = 1700003900000 and listing = ?listing and before = "[]" and after = "[]"]
  note t2 = reaper_boundary [where name = ?name and ds = "''1700000000000''"
        and now_ms = 1700003901000 and listing = ?listing and before = "[]" and after = "[]"]
  have k: "examine (1700003900000 div 1000) ?name = Kept \<and>
           ContainerStop ?name \<notin> set (cleanup_containers (1700003900000 div 1000) ?listing)"
    using t1 e1 h v r1 by (simp add: max_age_seconds_def)
  have s: "examine (1700003901000 div 1000) ?name = Stopped \<and>
           ContainerStop ?name \<in> set (cleanup_containers (1700003901000 div 1000) ?listing)"
    using t2 e1 h v r2 rn pre[of 1700003901000] by (simp add: max_age_seconds_def)
  have sk: "examine 1800000000 ''nanoclaw-main-170000000'' = Skipped"
    using reaper_boundary [where name = "''nanoclaw-main-170000000''" and now = 1800000000] e0
    by simp
  show ?thesis
    unfolding Let_def using e0 e1 h v rn k s sk by blast
qed

theorem watchdog_boundary_witness:
  "(0::int) \<le> 1700000300000 \<and> (1700000301999::int) < 2 ^ 59 \<and>
   (0::int) \<le> 1700000000000 \<and> (1700000000000::int) < 2 ^ 62 \<and>
   (1700000300000::int) - 1700000000000 = MAX_STALE_SECONDS * 1000 \<and>
   check_heartbeat (1700000300000 div 1000) (Beat 1700000000000) = [] \<and>
   (1700000301999::int) - 1700000000000 = (MAX_STALE_SECONDS + 2) * 1000 - 1 \<and>
   Pkill \<in> set (watchdog 1700000301 (1700000301999 div 1000) [] (Beat 1700000000000)) \<and>
   check_heartbeat 1700000300 NoFile = [LogNoHeartbeat]"
proof -
  have a: "check_heartbeat (1700000300000 div 1000) (Beat 1700000000000) = []"
    using watchdog_boundary [where now_ms = 1700000300000 and last_beat = 1700000000000]
    by (simp add: MAX_STALE_SECONDS_def)
  have b: "Pkill \<in> set (watchdog 1700000301 (1700000301999 div 1000) [] (Beat 1700000000000))"
    using watchdog_boundary [where now_ms = 1700000301999 and last_beat = 1700000000000
        and ?now1.0 = 1700000301 and listing = "[]"]
    by (simp add: MAX_STALE_SECONDS_def)
  have c: "check_heartbeat 1700000300 NoFile = [LogNoHeartbeat]"
    using watchdog_boundary [where now = 1700000300]
    by simp
  show ?thesis
    using a b c by (simp add: MAX_STALE_SECONDS_def)
qed

end
